theory Spec2Isabelle
  imports Main "HOL-Library.Word" "HOL-Library.Multiset"
begin

unbundle bit_operations_syntax

section \<open>Values of the Go program\<close>

text \<open>
  The package \<^verbatim>\<open>utils\<close> (file \<^verbatim>\<open>pkg/utils/hash.go\<close>) keeps a registry of hash
  algorithms and hashes one byte stream with several of them at once. Go's \<^verbatim>\<open>byte\<close>
  is an 8-bit word, \<^verbatim>\<open>int64\<close> a 64-bit word read as two's complement, a \<^verbatim>\<open>[]byte\<close> a list
  of bytes and a Go \<^verbatim>\<open>string\<close> a list of 8-bit characters. Go's \<^verbatim>\<open>int\<close> (32 or 64 bits,
  by platform) is a mathematical integer here; the conversion \<^verbatim>\<open>int64(n)\<close> is
  \<open>word_of_int\<close>, exact on either platform.
\<close>

type_synonym byte = "8 word"
type_synonym uint32 = "32 word"
type_synonym uint64 = "64 word"
type_synonym int64 = "64 word"

text \<open>\<^verbatim>\<open>[]byte(data)\<close>: the bytes of a string.\<close>

definition bytes_of :: "string \<Rightarrow> byte list" where
  "bytes_of data = map of_char data"

text \<open>
  Error values. \<open>ErrUnsupported\<close> is the package's own
  \<^verbatim>\<open>errors.New("hash type not supported")\<close>; \<open>ErrShortWrite\<close>, \<open>ErrInvalidWrite\<close> and
  \<open>EOF\<close> are the ones of Go's \<^verbatim>\<open>io\<close>; \<open>OtherError\<close> stands for any error a digest
  computer, reader or seeker of the caller's own returns; \<open>WrappedErr\<close> is an error with
  a message added around it.
\<close>

datatype error =
    ErrUnsupported
  | ErrShortWrite
  | ErrInvalidWrite
  | EOF
  | OtherError string
  | WrappedErr error string

text \<open>
  A run-time panic ends the call; it is the left summand of a result: reading through
  \<^verbatim>\<open>nil\<close>, slicing a buffer beyond its length or before its start, or a call of \<^verbatim>\<open>panic\<close>
  with a message.
\<close>

datatype panic = NilDereference | SliceBounds | Panic string

subsection \<open>The interface \<^verbatim>\<open>hash.Hash\<close>\<close>

text \<open>
  A value of the interface \<^verbatim>\<open>hash.Hash\<close> is an object with a state of its own and the
  methods the package calls on it: \<^verbatim>\<open>Write(p) (n int, err error)\<close>, which may change the
  state, and \<^verbatim>\<open>Sum(b) []byte\<close>, which appends the current digest to \<open>b\<close> and, by the
  interface's contract, leaves the state alone. The package reads both results of
  \<^verbatim>\<open>Write\<close>, so the model lets a digest computer return any count and any error.

  The object behind the interface may have further methods, and \<^verbatim>\<open>io.Copy\<close>, which
  \<^verbatim>\<open>HashReader\<close> calls, asks the object it writes to for one of them:
  \<^verbatim>\<open>ReadFrom(r io.Reader) (n int64, err error)\<close>. A call of that method is the conversation
  it has with the reader it is given: it calls \<^verbatim>\<open>Read\<close> with a buffer of some length and
  goes on from the bytes and the error it got, any number of times; in the end it returns
  its two results and leaves the object in a new state, or it panics. \<open>hReadFrom\<close> is
  \<open>None\<close> for an object without the method.
\<close>

codatatype 'h ReadFrom_run =
    RF_Read nat "byte list \<times> error option \<Rightarrow> 'h ReadFrom_run"
  | RF_Return "int64 \<times> error option" 'h
  | RF_Panic panic

record 'h Hash =
  hstate :: 'h
  hWrite :: "'h \<Rightarrow> byte list \<Rightarrow> (int \<times> error option) \<times> 'h"
  hSum :: "'h \<Rightarrow> byte list \<Rightarrow> byte list"
  hReadFrom :: "('h \<Rightarrow> 'h ReadFrom_run) option"

definition Hash_Write :: "'h Hash \<Rightarrow> byte list \<Rightarrow> (int \<times> error option) \<times> 'h Hash" where
  "Hash_Write hh p = (case hWrite hh (hstate hh) p of (r, s') \<Rightarrow> (r, hh\<lparr>hstate := s'\<rparr>))"

definition Hash_Sum :: "'h Hash \<Rightarrow> byte list \<Rightarrow> byte list" where
  "Hash_Sum hh b = hSum hh (hstate hh) b"

subsection \<open>\<^verbatim>\<open>HashType\<close> and the registry\<close>

text \<open>
  \<^verbatim>\<open>type HashType struct { Width int; Name string; Alias string; NewFunc func() hash.Hash }\<close>.
  The package handles descriptors only through pointers \<^verbatim>\<open>*HashType\<close> and uses the
  pointers as map keys, so a descriptor's identity is its address: \<open>Addr a\<close> is the
  address of the \<open>a\<close>-th object allocated, \<open>Null\<close> is \<^verbatim>\<open>nil\<close>, and the heap is the list
  of the objects allocated so far. A constructor \<^verbatim>\<open>NewFunc\<close> is a function here: every call
  returns a new object in the same initial state.
\<close>

record 'h HashType =
  Width :: int
  Name :: string
  Alias :: string
  NewFunc :: "unit \<Rightarrow> 'h Hash"

datatype ptr = Null | Addr nat

type_synonym 'h heap = "'h HashType list"

text \<open>Reading a field through a pointer: \<^verbatim>\<open>nil\<close> panics.\<close>

fun deref :: "'h heap \<Rightarrow> ptr \<Rightarrow> panic + 'h HashType" where
  "deref hp Null = Inl NilDereference"
| "deref hp (Addr a) = (if a < length hp then Inr (hp ! a) else Inl NilDereference)"

text \<open>
  The package's variables \<^verbatim>\<open>name2hash\<close>, \<^verbatim>\<open>alias2hash\<close> and \<^verbatim>\<open>Supported\<close>, with the heap
  of descriptors.
\<close>

record 'h pkg =
  name2hash :: "string \<rightharpoonup> ptr"
  alias2hash :: "string \<rightharpoonup> ptr"
  Supported :: "ptr list"
  heap :: "'h heap"

text \<open>
  \<^verbatim>\<open>RegisterHash\<close> allocates the descriptor, stores its pointer under the name and the
  alias, appends it to \<^verbatim>\<open>Supported\<close> and returns it.
\<close>

definition RegisterHash ::
  "string \<Rightarrow> string \<Rightarrow> int \<Rightarrow> (unit \<Rightarrow> 'h Hash) \<Rightarrow> 'h pkg \<Rightarrow> ptr \<times> 'h pkg" where
  "RegisterHash name alias width newFunc st =
     (let newType = Addr (length (heap st));
          st1 = st\<lparr>heap := heap st @ [\<lparr>Width = width, Name = name, Alias = alias, NewFunc = newFunc\<rparr>]\<rparr>;
          st2 = st1\<lparr>name2hash := (name2hash st1)(name \<mapsto> newType)\<rparr>;
          st3 = st2\<lparr>alias2hash := (alias2hash st2)(alias \<mapsto> newType)\<rparr>;
          st4 = st3\<lparr>Supported := Supported st3 @ [newType]\<rparr>
      in (newType, st4))"

subsection \<open>\<^verbatim>\<open>hex.EncodeToString\<close> and \<^verbatim>\<open>strings.Join\<close>\<close>

definition hextable :: string where
  "hextable = ''0123456789abcdef''"

definition EncodeToString :: "byte list \<Rightarrow> string" where
  "EncodeToString src =
     concat (map (\<lambda>v. [hextable ! unat (drop_bit 4 v), hextable ! unat (v AND 0x0f)]) src)"

fun Join :: "string list \<Rightarrow> string \<Rightarrow> string" where
  "Join [] sep = []"
| "Join [e] sep = e"
| "Join (e # es) sep = e @ sep @ Join es sep"

section \<open>The standard digests\<close>

text \<open>
  Modelled from the spec: the registry binds its three entries to "the corresponding
  standard digest constructor", Go's \<^verbatim>\<open>md5.New\<close>, \<^verbatim>\<open>sha1.New\<close> and \<^verbatim>\<open>sha256.New\<close>. They
  belong to Go's library, not to this repository, so they are written here from the
  standards they implement (RFC 1321 for MD5, FIPS 180-4 for SHA-1 and SHA-256) in the
  shape of Go's digest objects: the chaining words \<open>d_s\<close>, the buffered bytes \<open>d_x\<close> of
  the last incomplete block, and the number \<open>d_len\<close> of bytes written.
\<close>

record digest =
  d_s :: "uint32 list"
  d_x :: "byte list"
  d_len :: uint64

definition RotateLeft32 :: "uint32 \<Rightarrow> int \<Rightarrow> uint32" where
  "RotateLeft32 v k = push_bit (nat (k mod 32)) v OR drop_bit (32 - nat (k mod 32)) v"

definition LEUint32 :: "byte list \<Rightarrow> uint32" where
  "LEUint32 b = ucast (b ! 0) OR push_bit 8 (ucast (b ! 1)) OR push_bit 16 (ucast (b ! 2))
     OR push_bit 24 (ucast (b ! 3))"

definition BEUint32 :: "byte list \<Rightarrow> uint32" where
  "BEUint32 b = ucast (b ! 3) OR push_bit 8 (ucast (b ! 2)) OR push_bit 16 (ucast (b ! 1))
     OR push_bit 24 (ucast (b ! 0))"

definition LEPutUint32 :: "uint32 \<Rightarrow> byte list" where
  "LEPutUint32 v = [ucast v, ucast (drop_bit 8 v), ucast (drop_bit 16 v), ucast (drop_bit 24 v)]"

definition BEPutUint32 :: "uint32 \<Rightarrow> byte list" where
  "BEPutUint32 v = [ucast (drop_bit 24 v), ucast (drop_bit 16 v), ucast (drop_bit 8 v), ucast v]"

definition LEPutUint64 :: "uint64 \<Rightarrow> byte list" where
  "LEPutUint64 v = [ucast v, ucast (drop_bit 8 v), ucast (drop_bit 16 v), ucast (drop_bit 24 v),
     ucast (drop_bit 32 v), ucast (drop_bit 40 v), ucast (drop_bit 48 v), ucast (drop_bit 56 v)]"

definition BEPutUint64 :: "uint64 \<Rightarrow> byte list" where
  "BEPutUint64 v = [ucast (drop_bit 56 v), ucast (drop_bit 48 v), ucast (drop_bit 40 v),
     ucast (drop_bit 32 v), ucast (drop_bit 24 v), ucast (drop_bit 16 v), ucast (drop_bit 8 v),
     ucast v]"

definition blocks :: "byte list \<Rightarrow> byte list list" where
  "blocks p = map (\<lambda>i. take 64 (drop (64 * i) p)) [0..<length p div 64]"

definition words_of :: "(byte list \<Rightarrow> uint32) \<Rightarrow> byte list \<Rightarrow> uint32 list" where
  "words_of rd q = map (\<lambda>j. rd (drop (4 * j) q)) [0..<16]"

text \<open>
  \<^verbatim>\<open>Write\<close> of the three digests: the length grows by \<open>len(p)\<close>, every complete 64-byte
  block of the buffered bytes followed by \<open>p\<close> goes through the block function, and the
  bytes after the last complete block stay in the buffer. It returns \<open>len(p)\<close> and no
  error.
\<close>

definition digest_Write ::
  "(uint32 list \<Rightarrow> byte list \<Rightarrow> uint32 list) \<Rightarrow> digest \<Rightarrow> byte list \<Rightarrow> (int \<times> error option) \<times> digest" where
  "digest_Write block d p =
     ((int (length p), None),
      \<lparr>d_s = block (d_s d) (take (length (d_x d @ p) div 64 * 64) (d_x d @ p)),
       d_x = drop (length (d_x d @ p) div 64 * 64) (d_x d @ p),
       d_len = d_len d + of_nat (length p)\<rparr>)"

subsection \<open>MD5\<close>

definition md5_K :: "uint32 list" where
  "md5_K = [0xd76aa478, 0xe8c7b756, 0x242070db, 0xc1bdceee, 0xf57c0faf, 0x4787c62a, 0xa8304613,
     0xfd469501, 0x698098d8, 0x8b44f7af, 0xffff5bb1, 0x895cd7be, 0x6b901122, 0xfd987193,
     0xa679438e, 0x49b40821, 0xf61e2562, 0xc040b340, 0x265e5a51, 0xe9b6c7aa, 0xd62f105d,
     0x02441453, 0xd8a1e681, 0xe7d3fbc8, 0x21e1cde6, 0xc33707d6, 0xf4d50d87, 0x455a14ed,
     0xa9e3e905, 0xfcefa3f8, 0x676f02d9, 0x8d2a4c8a, 0xfffa3942, 0x8771f681, 0x6d9d6122,
     0xfde5380c, 0xa4beea44, 0x4bdecfa9, 0xf6bb4b60, 0xbebfbc70, 0x289b7ec6, 0xeaa127fa,
     0xd4ef3085, 0x04881d05, 0xd9d4d039, 0xe6db99e5, 0x1fa27cf8, 0xc4ac5665, 0xf4292244,
     0x432aff97, 0xab9423a7, 0xfc93a039, 0x655b59c3, 0x8f0ccc92, 0xffeff47d, 0x85845dd1,
     0x6fa87e4f, 0xfe2ce6e0, 0xa3014314, 0x4e0811a1, 0xf7537e82, 0xbd3af235, 0x2ad7d2bb,
     0xeb86d391]"

definition md5_S :: "int list" where
  "md5_S = [7, 12, 17, 22, 7, 12, 17, 22, 7, 12, 17, 22, 7, 12, 17, 22,
            5, 9, 14, 20, 5, 9, 14, 20, 5, 9, 14, 20, 5, 9, 14, 20,
            4, 11, 16, 23, 4, 11, 16, 23, 4, 11, 16, 23, 4, 11, 16, 23,
            6, 10, 15, 21, 6, 10, 15, 21, 6, 10, 15, 21, 6, 10, 15, 21]"

definition md5_f :: "nat \<Rightarrow> uint32 \<Rightarrow> uint32 \<Rightarrow> uint32 \<Rightarrow> uint32" where
  "md5_f i b c d =
     (if i < 16 then ((c XOR d) AND b) XOR d
      else if i < 32 then ((b XOR c) AND d) XOR c
      else if i < 48 then b XOR c XOR d
      else c XOR (b OR NOT d))"

definition md5_g :: "nat \<Rightarrow> nat" where
  "md5_g i =
     (if i < 16 then i
      else if i < 32 then (5 * i + 1) mod 16
      else if i < 48 then (3 * i + 5) mod 16
      else (7 * i) mod 16)"

fun md5_step ::
  "uint32 list \<Rightarrow> uint32 \<times> uint32 \<times> uint32 \<times> uint32 \<Rightarrow> nat \<Rightarrow> uint32 \<times> uint32 \<times> uint32 \<times> uint32" where
  "md5_step X (a, b, c, d) i =
     (d, b + RotateLeft32 (md5_f i b c d + a + X ! md5_g i + md5_K ! i) (md5_S ! i), b, c)"

fun md5_add :: "uint32 list \<Rightarrow> uint32 \<times> uint32 \<times> uint32 \<times> uint32 \<Rightarrow> uint32 list" where
  "md5_add [aa, bb, cc, dd] (a, b, c, d) = [a + aa, b + bb, c + cc, d + dd]"
| "md5_add st v = st"

fun md5_block1 :: "uint32 list \<Rightarrow> byte list \<Rightarrow> uint32 list" where
  "md5_block1 [aa, bb, cc, dd] q =
     md5_add [aa, bb, cc, dd] (foldl (md5_step (words_of LEUint32 q)) (aa, bb, cc, dd) [0..<64])"
| "md5_block1 st q = st"

definition md5_block :: "uint32 list \<Rightarrow> byte list \<Rightarrow> uint32 list" where
  "md5_block st p = foldl md5_block1 st (blocks p)"

definition md5_pad :: "uint64 \<Rightarrow> byte list" where
  "md5_pad n = 0x80 # replicate (unat ((55 - n) mod 64)) 0 @ LEPutUint64 (push_bit 3 n)"

definition md5_checkSum :: "digest \<Rightarrow> byte list" where
  "md5_checkSum d = concat (map LEPutUint32 (d_s (snd (digest_Write md5_block d (md5_pad (d_len d))))))"

definition md5_Sum :: "digest \<Rightarrow> byte list \<Rightarrow> byte list" where
  "md5_Sum d b = b @ md5_checkSum d"

text \<open>Modelled from the spec: \<^verbatim>\<open>md5.New\<close>, the constructor of Go's library for this digest.\<close>

definition md5_New :: "unit \<Rightarrow> digest Hash" where
  "md5_New u = \<lparr>hstate = \<lparr>d_s = [0x67452301, 0xefcdab89, 0x98badcfe, 0x10325476], d_x = [], d_len = 0\<rparr>,
                hWrite = digest_Write md5_block, hSum = md5_Sum, hReadFrom = None\<rparr>"

subsection \<open>SHA-1\<close>

definition sha1_f :: "nat \<Rightarrow> uint32 \<Rightarrow> uint32 \<Rightarrow> uint32 \<Rightarrow> uint32" where
  "sha1_f i b c d =
     (if i < 20 then (b AND c) OR (NOT b AND d)
      else if i < 40 then b XOR c XOR d
      else if i < 60 then ((b OR c) AND d) OR (b AND c)
      else b XOR c XOR d)"

definition sha1_K :: "nat \<Rightarrow> uint32" where
  "sha1_K i =
     (if i < 20 then 0x5A827999
      else if i < 40 then 0x6ED9EBA1
      else if i < 60 then 0x8F1BBCDC
      else 0xCA62C1D6)"

definition sha1_w_next :: "uint32 list \<Rightarrow> nat \<Rightarrow> uint32 list" where
  "sha1_w_next w i =
     w @ [RotateLeft32 (w ! (i - 3) XOR w ! (i - 8) XOR w ! (i - 14) XOR w ! (i - 16)) 1]"

fun sha1_step ::
  "uint32 list \<Rightarrow> uint32 \<times> uint32 \<times> uint32 \<times> uint32 \<times> uint32 \<Rightarrow> nat
     \<Rightarrow> uint32 \<times> uint32 \<times> uint32 \<times> uint32 \<times> uint32" where
  "sha1_step w (a, b, c, d, e) i =
     (RotateLeft32 a 5 + sha1_f i b c d + e + w ! i + sha1_K i, a, RotateLeft32 b 30, c, d)"

fun sha1_add ::
  "uint32 list \<Rightarrow> uint32 \<times> uint32 \<times> uint32 \<times> uint32 \<times> uint32 \<Rightarrow> uint32 list" where
  "sha1_add [h0, h1, h2, h3, h4] (a, b, c, d, e) = [h0 + a, h1 + b, h2 + c, h3 + d, h4 + e]"
| "sha1_add st v = st"

fun sha1_block1 :: "uint32 list \<Rightarrow> byte list \<Rightarrow> uint32 list" where
  "sha1_block1 [h0, h1, h2, h3, h4] q =
     sha1_add [h0, h1, h2, h3, h4]
       (foldl (sha1_step (foldl sha1_w_next (words_of BEUint32 q) [16..<80]))
          (h0, h1, h2, h3, h4) [0..<80])"
| "sha1_block1 st q = st"

definition sha1_block :: "uint32 list \<Rightarrow> byte list \<Rightarrow> uint32 list" where
  "sha1_block st p = foldl sha1_block1 st (blocks p)"

definition sha_pad :: "uint64 \<Rightarrow> byte list" where
  "sha_pad n =
     0x80 # replicate (unat (if n mod 64 < 56 then 56 - n mod 64 else 64 + 56 - n mod 64) - 1) 0
       @ BEPutUint64 (push_bit 3 n)"

definition sha1_checkSum :: "digest \<Rightarrow> byte list" where
  "sha1_checkSum d =
     concat (map BEPutUint32 (d_s (snd (digest_Write sha1_block d (sha_pad (d_len d))))))"

definition sha1_Sum :: "digest \<Rightarrow> byte list \<Rightarrow> byte list" where
  "sha1_Sum d b = b @ sha1_checkSum d"

text \<open>Modelled from the spec: \<^verbatim>\<open>sha1.New\<close>, the constructor of Go's library for this digest.\<close>

definition sha1_New :: "unit \<Rightarrow> digest Hash" where
  "sha1_New u =
     \<lparr>hstate = \<lparr>d_s = [0x67452301, 0xEFCDAB89, 0x98BADCFE, 0x10325476, 0xC3D2E1F0], d_x = [],
                 d_len = 0\<rparr>,
      hWrite = digest_Write sha1_block, hSum = sha1_Sum, hReadFrom = None\<rparr>"

subsection \<open>SHA-256\<close>

definition sha256_K :: "uint32 list" where
  "sha256_K = [0x428A2F98, 0x71374491, 0xB5C0FBCF, 0xE9B5DBA5, 0x3956C25B, 0x59F111F1,
     0x923F82A4, 0xAB1C5ED5, 0xD807AA98, 0x12835B01, 0x243185BE, 0x550C7DC3, 0x72BE5D74,
     0x80DEB1FE, 0x9BDC06A7, 0xC19BF174, 0xE49B69C1, 0xEFBE4786, 0x0FC19DC6, 0x240CA1CC,
     0x2DE92C6F, 0x4A7484AA, 0x5CB0A9DC, 0x76F988DA, 0x983E5152, 0xA831C66D, 0xB00327C8,
     0xBF597FC7, 0xC6E00BF3, 0xD5A79147, 0x06CA6351, 0x14292967, 0x27B70A85, 0x2E1B2138,
     0x4D2C6DFC, 0x53380D13, 0x650A7354, 0x766A0ABB, 0x81C2C92E, 0x92722C85, 0xA2BFE8A1,
     0xA81A664B, 0xC24B8B70, 0xC76C51A3, 0xD192E819, 0xD6990624, 0xF40E3585, 0x106AA070,
     0x19A4C116, 0x1E376C08, 0x2748774C, 0x34B0BCB5, 0x391C0CB3, 0x4ED8AA4A, 0x5B9CCA4F,
     0x682E6FF3, 0x748F82EE, 0x78A5636F, 0x84C87814, 0x8CC70208, 0x90BEFFFA, 0xA4506CEB,
     0xBEF9A3F7, 0xC67178F2]"

definition sha256_w_next :: "uint32 list \<Rightarrow> nat \<Rightarrow> uint32 list" where
  "sha256_w_next w i =
     w @ [(RotateLeft32 (w ! (i - 2)) (- 17) XOR RotateLeft32 (w ! (i - 2)) (- 19)
             XOR drop_bit 10 (w ! (i - 2)))
          + w ! (i - 7)
          + (RotateLeft32 (w ! (i - 15)) (- 7) XOR RotateLeft32 (w ! (i - 15)) (- 18)
               XOR drop_bit 3 (w ! (i - 15)))
          + w ! (i - 16)]"

definition sha256_t1 :: "uint32 \<Rightarrow> uint32 \<Rightarrow> uint32 \<Rightarrow> uint32 \<Rightarrow> uint32 \<Rightarrow> uint32 \<Rightarrow> uint32" where
  "sha256_t1 e f g h k w =
     h + (RotateLeft32 e (- 6) XOR RotateLeft32 e (- 11) XOR RotateLeft32 e (- 25))
       + ((e AND f) XOR (NOT e AND g)) + k + w"

definition sha256_t2 :: "uint32 \<Rightarrow> uint32 \<Rightarrow> uint32 \<Rightarrow> uint32" where
  "sha256_t2 a b c =
     (RotateLeft32 a (- 2) XOR RotateLeft32 a (- 13) XOR RotateLeft32 a (- 22))
       + ((a AND b) XOR (a AND c) XOR (b AND c))"

fun sha256_rotate ::
  "uint32 \<Rightarrow> uint32 \<Rightarrow> uint32 \<times> uint32 \<times> uint32 \<times> uint32 \<times> uint32 \<times> uint32 \<times> uint32 \<times> uint32
     \<Rightarrow> uint32 \<times> uint32 \<times> uint32 \<times> uint32 \<times> uint32 \<times> uint32 \<times> uint32 \<times> uint32" where
  "sha256_rotate t1 t2 (a, b, c, d, e, f, g, h) = (t1 + t2, a, b, c, d + t1, e, f, g)"

fun sha256_step ::
  "uint32 list \<Rightarrow> uint32 \<times> uint32 \<times> uint32 \<times> uint32 \<times> uint32 \<times> uint32 \<times> uint32 \<times> uint32 \<Rightarrow> nat
     \<Rightarrow> uint32 \<times> uint32 \<times> uint32 \<times> uint32 \<times> uint32 \<times> uint32 \<times> uint32 \<times> uint32" where
  "sha256_step w (a, b, c, d, e, f, g, h) i =
     sha256_rotate (sha256_t1 e f g h (sha256_K ! i) (w ! i)) (sha256_t2 a b c)
       (a, b, c, d, e, f, g, h)"

fun sha256_add ::
  "uint32 list \<Rightarrow> uint32 \<times> uint32 \<times> uint32 \<times> uint32 \<times> uint32 \<times> uint32 \<times> uint32 \<times> uint32
     \<Rightarrow> uint32 list" where
  "sha256_add [h0, h1, h2, h3, h4, h5, h6, h7] (a, b, c, d, e, f, g, h) =
     [h0 + a, h1 + b, h2 + c, h3 + d, h4 + e, h5 + f, h6 + g, h7 + h]"
| "sha256_add st v = st"

fun sha256_block1 :: "uint32 list \<Rightarrow> byte list \<Rightarrow> uint32 list" where
  "sha256_block1 [h0, h1, h2, h3, h4, h5, h6, h7] q =
     sha256_add [h0, h1, h2, h3, h4, h5, h6, h7]
       (foldl (sha256_step (foldl sha256_w_next (words_of BEUint32 q) [16..<64]))
          (h0, h1, h2, h3, h4, h5, h6, h7) [0..<64])"
| "sha256_block1 st q = st"

definition sha256_block :: "uint32 list \<Rightarrow> byte list \<Rightarrow> uint32 list" where
  "sha256_block st p = foldl sha256_block1 st (blocks p)"

definition sha256_checkSum :: "digest \<Rightarrow> byte list" where
  "sha256_checkSum d =
     concat (map BEPutUint32 (d_s (snd (digest_Write sha256_block d (sha_pad (d_len d))))))"

definition sha256_Sum :: "digest \<Rightarrow> byte list \<Rightarrow> byte list" where
  "sha256_Sum d b = b @ sha256_checkSum d"

text \<open>Modelled from the spec: \<^verbatim>\<open>sha256.New\<close>, the constructor of Go's library for this digest.\<close>

definition sha256_New :: "unit \<Rightarrow> digest Hash" where
  "sha256_New u =
     \<lparr>hstate = \<lparr>d_s = [0x6A09E667, 0xBB67AE85, 0x3C6EF372, 0xA54FF53A, 0x510E527F, 0x9B05688C,
                        0x1F83D9AB, 0x5BE0CD19], d_x = [], d_len = 0\<rparr>,
      hWrite = digest_Write sha256_block, hSum = sha256_Sum, hReadFrom = None\<rparr>"

section \<open>Hashing with one algorithm\<close>

text \<open>
  \<^verbatim>\<open>HashData\<close>: a fresh digest computer, one \<^verbatim>\<open>Write\<close> whose results are dropped, and the
  digest in hexadecimal.
\<close>

definition HashData :: "'h heap \<Rightarrow> ptr \<Rightarrow> byte list \<Rightarrow> panic + string" where
  "HashData hp hashType data =
     (case deref hp hashType of
        Inl e \<Rightarrow> Inl e
      | Inr t \<Rightarrow>
          (case Hash_Write (NewFunc t ()) data of
             (r, hh) \<Rightarrow> Inr (EncodeToString (Hash_Sum hh []))))"

section \<open>The multi-hasher\<close>

text \<open>
  Go visits the entries of a map in an order of the run time's choosing. A loop
  \<^verbatim>\<open>for k, v := range m\<close> is modelled with that order as a parameter \<open>ord\<close>, a list of
  keys: the loop sees the entries of \<open>m\<close> in the order of \<open>ord\<close>. An order the run time
  can choose lists every key of the map once (\<open>iter_order\<close>).
\<close>

definition range_map :: "'k list \<Rightarrow> ('k \<rightharpoonup> 'v) \<Rightarrow> ('k \<times> 'v) list" where
  "range_map ord m = List.map_filter (\<lambda>k. map_option (Pair k) (m k)) ord"

definition iter_order :: "'k list \<Rightarrow> ('k \<rightharpoonup> 'v) \<Rightarrow> bool" where
  "iter_order ord m = (distinct ord \<and> set ord = dom m)"

text \<open>\<^verbatim>\<open>fromTypes\<close>: one fresh digest computer for each requested type.\<close>

fun fromTypes_loop :: "'h heap \<Rightarrow> ptr list \<Rightarrow> (ptr \<rightharpoonup> 'h Hash) \<Rightarrow> panic + (ptr \<rightharpoonup> 'h Hash)" where
  "fromTypes_loop hp [] hashers = Inr hashers"
| "fromTypes_loop hp (t # ts) hashers =
     (case deref hp t of
        Inl e \<Rightarrow> Inl e
      | Inr ht \<Rightarrow> fromTypes_loop hp ts (hashers(t \<mapsto> NewFunc ht ())))"

definition fromTypes :: "'h heap \<Rightarrow> ptr list \<Rightarrow> panic + (ptr \<rightharpoonup> 'h Hash)" where
  "fromTypes hp types = fromTypes_loop hp types Map.empty"

text \<open>
  \<^verbatim>\<open>MultiHasher\<close>. The field \<^verbatim>\<open>w\<close> is the \<^verbatim>\<open>io.MultiWriter\<close> over the digest computers of
  \<^verbatim>\<open>h\<close>; both fields refer to the same objects, so a write through \<^verbatim>\<open>w\<close> changes what
  \<^verbatim>\<open>h\<close> holds. In the model \<open>mh_h\<close> is the store of these objects and \<open>mh_w\<close> lists
  their keys in the order \<^verbatim>\<open>toMultiWriter\<close> met them. Every key of \<open>mh_w\<close> is a key of
  \<open>mh_h\<close> (\<open>writers_in_store\<close> below); \<open>mw_Write\<close> passes over a key that is not.
\<close>

record 'h MultiHasher =
  mh_w :: "ptr list"
  mh_size :: int64
  mh_h :: "ptr \<rightharpoonup> 'h Hash"

definition toMultiWriter :: "ptr list \<Rightarrow> (ptr \<rightharpoonup> 'h Hash) \<Rightarrow> ptr list" where
  "toMultiWriter ord hs = map fst (range_map ord hs)"

definition NewMultiHasher :: "'h heap \<Rightarrow> ptr list \<Rightarrow> ptr list \<Rightarrow> panic + 'h MultiHasher" where
  "NewMultiHasher hp ord types =
     (case fromTypes hp types of
        Inl e \<Rightarrow> Inl e
      | Inr hashers \<Rightarrow> Inr \<lparr>mh_w = toMultiWriter ord hashers, mh_size = 0, mh_h = hashers\<rparr>)"

text \<open>
  The \<^verbatim>\<open>Write\<close> of Go's \<^verbatim>\<open>io.MultiWriter\<close>: each writer in turn gets the whole buffer;
  the first error, or the first count different from the buffer's length (then with
  \<^verbatim>\<open>io.ErrShortWrite\<close>), ends the call, and the writers before it stay written.
\<close>

fun mw_Write ::
  "ptr list \<Rightarrow> (ptr \<rightharpoonup> 'h Hash) \<Rightarrow> byte list \<Rightarrow> (int \<times> error option) \<times> (ptr \<rightharpoonup> 'h Hash)" where
  "mw_Write [] hs p = ((int (length p), None), hs)"
| "mw_Write (k # ks) hs p =
     (case hs k of
        None \<Rightarrow> mw_Write ks hs p
      | Some hw \<Rightarrow>
          (case Hash_Write hw p of
             ((n, err), hw') \<Rightarrow>
               if err \<noteq> None then ((n, err), hs(k \<mapsto> hw'))
               else if n \<noteq> int (length p) then ((n, Some ErrShortWrite), hs(k \<mapsto> hw'))
               else mw_Write ks (hs(k \<mapsto> hw')) p))"

definition Write :: "'h MultiHasher \<Rightarrow> byte list \<Rightarrow> (int \<times> error option) \<times> 'h MultiHasher" where
  "Write m p =
     (case mw_Write (mh_w m) (mh_h m) p of
        ((n, err), hs) \<Rightarrow> ((n, err), m\<lparr>mh_h := hs, mh_size := mh_size m + word_of_int n\<rparr>))"

record HashInfo =
  hi_h :: "ptr \<rightharpoonup> string"

definition GetHashInfo :: "ptr list \<Rightarrow> 'h MultiHasher \<Rightarrow> HashInfo" where
  "GetHashInfo ord m =
     \<lparr>hi_h = foldl (\<lambda>dst (k, v). dst(k \<mapsto> EncodeToString (Hash_Sum v []))) Map.empty
                (range_map ord (mh_h m))\<rparr>"

text \<open>
  The method \<^verbatim>\<open>Sum\<close> of the multi-hasher returns \<^verbatim>\<open>(nil, ErrUnsupported)\<close> or the digest and
  \<^verbatim>\<open>nil\<close>. (The name \<open>Sum\<close> is taken in HOL, hence \<open>Sum_mh\<close>.)
\<close>

definition Sum_mh :: "'h MultiHasher \<Rightarrow> ptr \<Rightarrow> byte list \<times> error option" where
  "Sum_mh m hashType =
     (case mh_h m hashType of
        None \<Rightarrow> ([], Some ErrUnsupported)
      | Some hh \<Rightarrow> (Hash_Sum hh [], None))"

definition Size :: "'h MultiHasher \<Rightarrow> int64" where
  "Size m = mh_size m"

section \<open>Digest result sets\<close>

definition NewHashInfo :: "ptr \<Rightarrow> string \<Rightarrow> HashInfo" where
  "NewHashInfo ht str = \<lparr>hi_h = Map.empty(ht \<mapsto> str)\<rparr>"

text \<open>
  \<^verbatim>\<open>String\<close>: the loop collects \<^verbatim>\<open>ht.Name+":"+str\<close> for the entries with a non-empty
  string, in the order the map is visited, and \<^verbatim>\<open>strings.Join\<close> puts a newline between
  them.
\<close>

fun String_loop :: "'h heap \<Rightarrow> (ptr \<times> string) list \<Rightarrow> string list \<Rightarrow> panic + string list" where
  "String_loop hp [] tmp = Inr tmp"
| "String_loop hp ((ht, str) # kvs) tmp =
     (if length str > 0
      then (case deref hp ht of
              Inl e \<Rightarrow> Inl e
            | Inr t \<Rightarrow> String_loop hp kvs (tmp @ [Name t @ '':'' @ str]))
      else String_loop hp kvs tmp)"

definition String :: "'h heap \<Rightarrow> ptr list \<Rightarrow> HashInfo \<Rightarrow> panic + string" where
  "String hp ord hi =
     (case String_loop hp (range_map ord (hi_h hi)) [] of
        Inl e \<Rightarrow> Inl e
      | Inr tmp \<Rightarrow> Inr (Join tmp [CHR 0x0A]))"

text \<open>\<^verbatim>\<open>GetHash\<close>: a missing key reads as the empty string.\<close>

definition GetHash :: "HashInfo \<Rightarrow> ptr \<Rightarrow> string" where
  "GetHash hi ht = (case hi_h hi ht of None \<Rightarrow> [] | Some str \<Rightarrow> str)"

section \<open>The registry at process start\<close>

text \<open>
  The package's variable declarations run in order at start-up: the two maps and the
  list start empty, and \<^verbatim>\<open>MD5\<close>, \<^verbatim>\<open>SHA1\<close> and \<^verbatim>\<open>SHA256\<close> are bound to what the three calls
  of \<^verbatim>\<open>RegisterHash\<close> return.
\<close>

definition empty_pkg :: "'h pkg" where
  "empty_pkg = \<lparr>name2hash = Map.empty, alias2hash = Map.empty, Supported = [], heap = []\<rparr>"

definition reg_MD5 :: "ptr \<times> digest pkg" where
  "reg_MD5 = RegisterHash ''md5'' ''MD5'' 32 md5_New empty_pkg"

definition MD5 :: ptr where
  "MD5 = fst reg_MD5"

definition reg_SHA1 :: "ptr \<times> digest pkg" where
  "reg_SHA1 = RegisterHash ''sha1'' ''SHA-1'' 40 sha1_New (snd reg_MD5)"

definition SHA1 :: ptr where
  "SHA1 = fst reg_SHA1"

definition reg_SHA256 :: "ptr \<times> digest pkg" where
  "reg_SHA256 = RegisterHash ''sha256'' ''SHA-256'' 64 sha256_New (snd reg_SHA1)"

definition SHA256 :: ptr where
  "SHA256 = fst reg_SHA256"

definition init_pkg :: "digest pkg" where
  "init_pkg = snd reg_SHA256"

text \<open>\<^verbatim>\<open>GetMD5EncodeStr\<close> reads the variable \<^verbatim>\<open>MD5\<close> and the heap of the moment.\<close>

definition GetMD5EncodeStr :: "digest heap \<Rightarrow> string \<Rightarrow> panic + string" where
  "GetMD5EncodeStr hp data = HashData hp MD5 (bytes_of data)"

section \<open>Hashing a reader\<close>

text \<open>
  An \<^verbatim>\<open>io.ReadSeeker\<close> is an object with a state and the methods \<^verbatim>\<open>Read\<close> and \<^verbatim>\<open>Seek\<close>.
  \<^verbatim>\<open>Read(p)\<close> gets a buffer of \<open>len(p)\<close> bytes and returns the bytes it put there with an
  optional error, or it panics; \<^verbatim>\<open>Seek(offset, whence)\<close> returns the new offset and an
  optional error.

  The object behind the interface may have further methods, and \<^verbatim>\<open>io.Copy\<close> asks the
  object it reads from for one of them: \<^verbatim>\<open>WriteTo(w io.Writer) (n int64, err error)\<close>,
  which \<^verbatim>\<open>bytes.Reader\<close>, \<^verbatim>\<open>strings.Reader\<close> and \<^verbatim>\<open>os.File\<close> have. A call of that method
  is the conversation it has with the writer it is given: it calls \<^verbatim>\<open>Write\<close> with a
  buffer and goes on from the count and the error it got, any number of times; in the end
  it returns its two results and leaves the source in a new state, or it panics.
  \<open>rWriteTo\<close> is \<open>None\<close> for a source without the method.
\<close>

codatatype 'r WriteTo_run =
    WT_Write "byte list" "int \<times> error option \<Rightarrow> 'r WriteTo_run"
  | WT_Return "int64 \<times> error option" 'r
  | WT_Panic panic

record 'r ReadSeeker =
  rstate :: 'r
  rRead :: "'r \<Rightarrow> nat \<Rightarrow> panic + ((byte list \<times> error option) \<times> 'r)"
  rSeek :: "'r \<Rightarrow> int \<Rightarrow> int \<Rightarrow> (int \<times> error option) \<times> 'r"
  rWriteTo :: "('r \<Rightarrow> 'r WriteTo_run) option"

definition RS_Read ::
  "'r ReadSeeker \<Rightarrow> nat \<Rightarrow> panic + ((byte list \<times> error option) \<times> 'r ReadSeeker)" where
  "RS_Read src n =
     (case rRead src (rstate src) n of
        Inl e \<Rightarrow> Inl e
      | Inr (r, s') \<Rightarrow> Inr (r, src\<lparr>rstate := s'\<rparr>))"

definition RS_Seek :: "'r ReadSeeker \<Rightarrow> int \<Rightarrow> int \<Rightarrow> (int \<times> error option) \<times> 'r ReadSeeker" where
  "RS_Seek src off whence = (case rSeek src (rstate src) off whence of (r, s') \<Rightarrow> (r, src\<lparr>rstate := s'\<rparr>))"

definition SeekStart :: int where
  "SeekStart = 0"

text \<open>
  \<^verbatim>\<open>wt.WriteTo(dst)\<close>: the conversation of the source's \<^verbatim>\<open>WriteTo\<close> with the digest
  computer \<open>dst\<close>. Every \<^verbatim>\<open>Write\<close> it asks for is done on \<open>dst\<close>, and its answer decides
  how the conversation goes on. A conversation without end has the result \<open>None\<close>.
\<close>

partial_function (option) run_WriteTo ::
  "'r WriteTo_run \<Rightarrow> 'h Hash \<Rightarrow> (panic + ((int64 \<times> error option) \<times> 'r \<times> 'h Hash)) option" where
  "run_WriteTo run dst =
     (case run of
        WT_Write b cont \<Rightarrow>
          (case Hash_Write dst b of (res, dst') \<Rightarrow> run_WriteTo (cont res) dst')
      | WT_Return res s' \<Rightarrow> Some (Inr (res, s', dst))
      | WT_Panic e \<Rightarrow> Some (Inl e))"

text \<open>
  \<^verbatim>\<open>rf.ReadFrom(src)\<close>: the conversation of the digest computer's \<^verbatim>\<open>ReadFrom\<close> with the
  source \<open>src\<close>. A \<^verbatim>\<open>Read\<close> that panics ends the call.
\<close>

partial_function (option) run_ReadFrom ::
  "'h ReadFrom_run \<Rightarrow> 'r ReadSeeker \<Rightarrow>
     (panic + ((int64 \<times> error option) \<times> 'h \<times> 'r ReadSeeker)) option" where
  "run_ReadFrom run src =
     (case run of
        RF_Read n cont \<Rightarrow>
          (case RS_Read src n of
             Inl e \<Rightarrow> Some (Inl e)
           | Inr (res, src') \<Rightarrow> run_ReadFrom (cont res) src')
      | RF_Return res s' \<Rightarrow> Some (Inr (res, s', src))
      | RF_Panic e \<Rightarrow> Some (Inl e))"

text \<open>
  The loop of Go's \<^verbatim>\<open>io.Copy\<close>: read up to 32 KiB, write what was read, stop at the first
  error of either side, \<^verbatim>\<open>io.EOF\<close> being the regular end. \<open>write_outcome\<close> is the error
  the loop draws from one \<^verbatim>\<open>Write\<close> of \<open>nr\<close> bytes that returned \<open>(nw, ew)\<close>. A \<^verbatim>\<open>Read\<close> that
  reports more bytes than the buffer has makes the loop slice beyond the buffer. A source
  that never ends and never fails keeps the loop running: the result is then \<open>None\<close>.
\<close>

definition write_outcome :: "nat \<Rightarrow> int \<Rightarrow> error option \<Rightarrow> error option" where
  "write_outcome nr nw ew =
     (if (nw < 0 \<or> int nr < nw) \<and> ew = None then Some ErrInvalidWrite
      else if ew \<noteq> None then ew
      else if int nr \<noteq> nw then Some ErrShortWrite
      else None)"

partial_function (option) copyBuffer_loop ::
  "'h Hash \<Rightarrow> 'r ReadSeeker \<Rightarrow> (panic + (error option \<times> 'h Hash \<times> 'r ReadSeeker)) option" where
  "copyBuffer_loop dst src =
     (case RS_Read src 32768 of
        Inl e \<Rightarrow> Some (Inl e)
      | Inr ((buf, er), src') \<Rightarrow>
          if length buf > 32768 then Some (Inl SliceBounds)
          else
            (case (if length buf > 0
                   then (case Hash_Write dst buf of
                           ((nw, ew), dst') \<Rightarrow> (write_outcome (length buf) nw ew, dst'))
                   else (None, dst)) of
               (err, dst') \<Rightarrow>
                 if err \<noteq> None then Some (Inr (err, dst', src'))
                 else if er \<noteq> None
                 then Some (Inr (if er \<noteq> Some EOF then er else None, dst', src'))
                 else copyBuffer_loop dst' src'))"

text \<open>
  \<^verbatim>\<open>io.Copy(dst, src)\<close>. A source with \<^verbatim>\<open>WriteTo\<close> does the copy itself and is not read;
  else a destination with \<^verbatim>\<open>ReadFrom\<close> does the copy; else the loop runs. The error of
  the method is returned as it is. The byte count \<^verbatim>\<open>io.Copy\<close> returns is left out:
  \<^verbatim>\<open>HashReader\<close> drops it. The loop's buffer has 32 KiB for every source here: the
  smaller one \<^verbatim>\<open>io.Copy\<close> takes for an \<^verbatim>\<open>*io.LimitedReader\<close> is for a type without \<^verbatim>\<open>Seek\<close>,
  which \<^verbatim>\<open>HashFile\<close> cannot be given.
\<close>

definition Copy ::
  "'h Hash \<Rightarrow> 'r ReadSeeker \<Rightarrow> (panic + (error option \<times> 'h Hash \<times> 'r ReadSeeker)) option" where
  "Copy dst src =
     (case rWriteTo src of
        Some wt \<Rightarrow>
          (case run_WriteTo (wt (rstate src)) dst of
             None \<Rightarrow> None
           | Some (Inl e) \<Rightarrow> Some (Inl e)
           | Some (Inr ((n, err), s', dst')) \<Rightarrow> Some (Inr (err, dst', src\<lparr>rstate := s'\<rparr>)))
      | None \<Rightarrow>
          (case hReadFrom dst of
             Some rf \<Rightarrow>
               (case run_ReadFrom (rf (hstate dst)) src of
                  None \<Rightarrow> None
                | Some (Inl e) \<Rightarrow> Some (Inl e)
                | Some (Inr ((n, err), s', src')) \<Rightarrow> Some (Inr (err, dst\<lparr>hstate := s'\<rparr>, src')))
           | None \<Rightarrow> copyBuffer_loop dst src))"

text \<open>
  Modelled from the spec: \<^verbatim>\<open>errs.NewErr\<close> of the repository's package \<^verbatim>\<open>internal/errs\<close> is
  not among the sources; the spec says that a failure met while draining a byte source
  is "wrapped with a contextual message".
\<close>

definition NewErr :: "error \<Rightarrow> string \<Rightarrow> error" where
  "NewErr err msg = WrappedErr err msg"

text \<open>
  \<^verbatim>\<open>HashReader\<close> and \<^verbatim>\<open>HashFile\<close>. \<^verbatim>\<open>HashReader\<close> is given the sources \<^verbatim>\<open>HashFile\<close> passes
  to it; it reads and does not seek.
\<close>

definition HashReader ::
  "'h heap \<Rightarrow> ptr \<Rightarrow> 'r ReadSeeker \<Rightarrow> (panic + ((string \<times> error option) \<times> 'r ReadSeeker)) option" where
  "HashReader hp hashType reader =
     (case deref hp hashType of
        Inl e \<Rightarrow> Some (Inl e)
      | Inr t \<Rightarrow>
          (case Copy (NewFunc t ()) reader of
             None \<Rightarrow> None
           | Some (Inl e) \<Rightarrow> Some (Inl e)
           | Some (Inr (err, h, reader')) \<Rightarrow>
               (case err of
                  Some e \<Rightarrow> Some (Inr (([], Some (NewErr e ''HashReader error'')), reader'))
                | None \<Rightarrow> Some (Inr ((EncodeToString (Hash_Sum h []), None), reader')))))"

definition HashFile ::
  "'h heap \<Rightarrow> ptr \<Rightarrow> 'r ReadSeeker \<Rightarrow> (panic + ((string \<times> error option) \<times> 'r ReadSeeker)) option" where
  "HashFile hp hashType file =
     (case HashReader hp hashType file of
        None \<Rightarrow> None
      | Some (Inl e) \<Rightarrow> Some (Inl e)
      | Some (Inr ((str, err), file')) \<Rightarrow>
          if err \<noteq> None then Some (Inr (([], err), file'))
          else
            (case RS_Seek file' 0 SeekStart of
               ((n, err'), file'') \<Rightarrow>
                 if err' \<noteq> None then Some (Inr ((str, err'), file''))
                 else Some (Inr ((str, None), file''))))"

section \<open>Clients and sample objects\<close>

text \<open>A client that calls \<^verbatim>\<open>Write\<close> with one buffer after the other and keeps the results.\<close>

fun Writes :: "'h MultiHasher \<Rightarrow> byte list list \<Rightarrow> (int \<times> error option) list \<times> 'h MultiHasher" where
  "Writes m [] = ([], m)"
| "Writes m (p # ps) =
     (case Write m p of (r, m') \<Rightarrow> (case Writes m' ps of (rs, m'') \<Rightarrow> (r # rs, m'')))"

text \<open>The digest computer \<^verbatim>\<open>t.NewFunc()\<close> of a pointer, when the pointer can be read.\<close>

definition fresh :: "'h heap \<Rightarrow> ptr \<Rightarrow> 'h Hash option" where
  "fresh hp t = (case deref hp t of Inl e \<Rightarrow> None | Inr ht \<Rightarrow> Some (NewFunc ht ()))"

text \<open>The line \<^verbatim>\<open>ht.Name+":"+str\<close> of an entry of a result set.\<close>

definition line_of :: "'h heap \<Rightarrow> HashInfo \<Rightarrow> ptr \<Rightarrow> string" where
  "line_of hp hi ht =
     (case deref hp ht of Inl e \<Rightarrow> [] | Inr t \<Rightarrow> Name t @ '':'' @ GetHash hi ht)"

text \<open>The lines of a text: the pieces between its newline characters.\<close>

fun lines_of :: "string \<Rightarrow> string list" where
  "lines_of [] = [[]]"
| "lines_of (c # cs) =
     (if c = CHR 0x0A then [] # lines_of cs
      else (case lines_of cs of [] \<Rightarrow> [[c]] | l # ls \<Rightarrow> (c # l) # ls))"

text \<open>
  A digest computer that keeps to the contract of \<^verbatim>\<open>hash.Hash\<close> and hashes a stream: every
  \<^verbatim>\<open>Write\<close> takes the whole buffer without error, two writes in a row leave the state one
  write of the concatenation leaves, and an empty write leaves a new object as it is.
\<close>

definition streaming :: "'h Hash \<Rightarrow> bool" where
  "streaming hh =
     ((\<forall>s p. fst (hWrite hh s p) = (int (length p), None)) \<and>
      (\<forall>s a b. snd (hWrite hh (snd (hWrite hh s a)) b) = snd (hWrite hh s (a @ b))) \<and>
      snd (hWrite hh (hstate hh) []) = hstate hh)"

text \<open>
  A digest computer of a caller's own that takes \<open>cap\<close> bytes in all: a \<^verbatim>\<open>Write\<close> beyond that
  accepts the bytes that still fit and fails. Its digest is the bytes it took.
\<close>

definition capped_Write :: "nat \<Rightarrow> byte list \<Rightarrow> byte list \<Rightarrow> (int \<times> error option) \<times> byte list" where
  "capped_Write cap s p =
     (if length s + length p \<le> cap then ((int (length p), None), s @ p)
      else ((int (cap - length s), Some (OtherError ''full'')), s @ take (cap - length s) p))"

definition capped_New :: "nat \<Rightarrow> unit \<Rightarrow> byte list Hash" where
  "capped_New cap u = \<lparr>hstate = [], hWrite = capped_Write cap, hSum = (\<lambda>s b. b @ s),
      hReadFrom = None\<rparr>"

text \<open>A registry with this digest computer alone, registered the usual way.\<close>

definition capped_pkg :: "byte list pkg" where
  "capped_pkg = snd (RegisterHash ''cap3'' ''CAP3'' 6 (capped_New 3) empty_pkg)"

text \<open>
  A seekable source over bytes in memory, after Go's \<^verbatim>\<open>bytes.Reader\<close>, with the slice \<^verbatim>\<open>s\<close>
  and the index \<^verbatim>\<open>i\<close> of that type (an \<^verbatim>\<open>int64\<close>, a mathematical integer here). \<^verbatim>\<open>Read\<close>
  returns what fits of the bytes from the index on and \<^verbatim>\<open>io.EOF\<close> at the end; \<^verbatim>\<open>Seek\<close> sets
  the index from the start (0), the index (1) or the end (2); \<^verbatim>\<open>WriteTo\<close> writes the bytes
  from the index on with one \<^verbatim>\<open>Write\<close> and moves the index by the count that \<^verbatim>\<open>Write\<close>
  reported.
\<close>

record memfile =
  f_data :: "byte list"
  f_pos :: int

definition mem_Read :: "memfile \<Rightarrow> nat \<Rightarrow> panic + ((byte list \<times> error option) \<times> memfile)" where
  "mem_Read f n =
     (if f_pos f \<ge> int (length (f_data f)) then Inr (([], Some EOF), f)
      else if f_pos f < 0 then Inl SliceBounds
      else Inr ((take n (drop (nat (f_pos f)) (f_data f)), None),
                f\<lparr>f_pos := f_pos f + int (length (take n (drop (nat (f_pos f)) (f_data f))))\<rparr>))"

definition mem_Seek :: "memfile \<Rightarrow> int \<Rightarrow> int \<Rightarrow> (int \<times> error option) \<times> memfile" where
  "mem_Seek f off whence =
     (if whence \<noteq> 0 \<and> whence \<noteq> 1 \<and> whence \<noteq> 2
      then ((0, Some (OtherError ''bytes.Reader.Seek: invalid whence'')), f)
      else if (if whence = 0 then off
               else if whence = 1 then f_pos f + off
               else int (length (f_data f)) + off) < 0
      then ((0, Some (OtherError ''bytes.Reader.Seek: negative position'')), f)
      else (((if whence = 0 then off
              else if whence = 1 then f_pos f + off
              else int (length (f_data f)) + off), None),
            f\<lparr>f_pos := (if whence = 0 then off
                        else if whence = 1 then f_pos f + off
                        else int (length (f_data f)) + off)\<rparr>))"

definition mem_WriteTo :: "memfile \<Rightarrow> memfile WriteTo_run" where
  "mem_WriteTo f =
     (if f_pos f \<ge> int (length (f_data f)) then WT_Return (0, None) f
      else if f_pos f < 0 then WT_Panic SliceBounds
      else WT_Write (drop (nat (f_pos f)) (f_data f))
             (\<lambda>(m, err).
                if m > int (length (drop (nat (f_pos f)) (f_data f)))
                then WT_Panic (Panic ''bytes.Reader.WriteTo: invalid Write count'')
                else WT_Return
                       (word_of_int m,
                        if m \<noteq> int (length (drop (nat (f_pos f)) (f_data f))) \<and> err = None
                        then Some ErrShortWrite else err)
                       (f\<lparr>f_pos := f_pos f + m\<rparr>)))"

definition mem_file :: "byte list \<Rightarrow> int \<Rightarrow> memfile ReadSeeker" where
  "mem_file bs pos =
     \<lparr>rstate = \<lparr>f_data = bs, f_pos = pos\<rparr>,
      rRead = mem_Read, rSeek = mem_Seek, rWriteTo = Some mem_WriteTo\<rparr>"

text \<open>
  A source of a caller's own over bytes in memory, without \<^verbatim>\<open>WriteTo\<close>: a \<^verbatim>\<open>Read\<close> hands
  out at most \<open>c\<close> bytes, as a pipe or a connection does, and with \<open>seekable\<close> false every
  \<^verbatim>\<open>Seek\<close> fails.
\<close>

definition chunk_Read :: "nat \<Rightarrow> memfile \<Rightarrow> nat \<Rightarrow> panic + ((byte list \<times> error option) \<times> memfile)" where
  "chunk_Read c f n = mem_Read f (min c n)"

definition no_Seek :: "memfile \<Rightarrow> int \<Rightarrow> int \<Rightarrow> (int \<times> error option) \<times> memfile" where
  "no_Seek f off whence = ((0, Some (OtherError ''illegal seek'')), f)"

definition chunk_file :: "nat \<Rightarrow> bool \<Rightarrow> byte list \<Rightarrow> int \<Rightarrow> memfile ReadSeeker" where
  "chunk_file c seekable bs pos =
     \<lparr>rstate = \<lparr>f_data = bs, f_pos = pos\<rparr>,
      rRead = chunk_Read c, rSeek = (if seekable then mem_Seek else no_Seek), rWriteTo = None\<rparr>"

text \<open>
  A digest computer of a caller's own with \<^verbatim>\<open>ReadFrom\<close>: its digest is the bytes it took,
  and its \<^verbatim>\<open>ReadFrom\<close> asks the reader for four bytes, once, and takes what it gets.
\<close>

definition four_ReadFrom :: "byte list \<Rightarrow> byte list ReadFrom_run" where
  "four_ReadFrom s =
     RF_Read 4 (\<lambda>(buf, er).
       RF_Return (word_of_nat (length buf), if er = Some EOF then None else er) (s @ buf))"

definition four_New :: "unit \<Rightarrow> byte list Hash" where
  "four_New u =
     \<lparr>hstate = [], hWrite = (\<lambda>s p. ((int (length p), None), s @ p)), hSum = (\<lambda>s b. b @ s),
      hReadFrom = Some four_ReadFrom\<rparr>"

definition four_pkg :: "byte list pkg" where
  "four_pkg = snd (RegisterHash ''four'' ''FOUR'' 8 four_New empty_pkg)"

text \<open>
  The bytes a source hands over to \<^verbatim>\<open>io.Copy\<close> from where it stands to its end, and the
  source after that. A source without \<^verbatim>\<open>WriteTo\<close> is read with buffers of 32 KiB until it
  reports \<^verbatim>\<open>io.EOF\<close>: \<open>reads_to_end k\<close> are the bytes of at most \<open>k\<close> such calls, none of
  which fails. A source with \<^verbatim>\<open>WriteTo\<close> writes them itself: \<open>writes_to_end k\<close> are the
  bytes of at most \<open>k - 1\<close> calls of \<^verbatim>\<open>Write\<close>, each of which is told that the whole buffer
  was taken, after which \<^verbatim>\<open>WriteTo\<close> returns without error. The result is \<open>None\<close> when the
  source fails, panics or is not at its end within \<open>k\<close> steps.
\<close>

fun reads_to_end :: "nat \<Rightarrow> 'r ReadSeeker \<Rightarrow> (byte list \<times> 'r ReadSeeker) option" where
  "reads_to_end 0 src = None"
| "reads_to_end (Suc k) src =
     (case RS_Read src 32768 of
        Inl e \<Rightarrow> None
      | Inr ((buf, er), src') \<Rightarrow>
          if length buf > 32768 then None
          else if er = Some EOF then Some (buf, src')
          else if er \<noteq> None then None
          else (case reads_to_end k src' of
                  None \<Rightarrow> None
                | Some (bs, src'') \<Rightarrow> Some (buf @ bs, src'')))"

fun writes_to_end :: "nat \<Rightarrow> 'r WriteTo_run \<Rightarrow> (byte list \<times> 'r) option" where
  "writes_to_end 0 run = None"
| "writes_to_end (Suc k) (WT_Panic e) = None"
| "writes_to_end (Suc k) (WT_Return (n, err) s') = (if err = None then Some ([], s') else None)"
| "writes_to_end (Suc k) (WT_Write b cont) =
     (case writes_to_end k (cont (int (length b), None)) of
        None \<Rightarrow> None
      | Some (bs, s') \<Rightarrow> Some (b @ bs, s'))"

definition yields :: "nat \<Rightarrow> 'r ReadSeeker \<Rightarrow> (byte list \<times> 'r ReadSeeker) option" where
  "yields k src =
     (case rWriteTo src of
        None \<Rightarrow> reads_to_end k src
      | Some wt \<Rightarrow>
          (case writes_to_end k (wt (rstate src)) of
             None \<Rightarrow> None
           | Some (bs, s') \<Rightarrow> Some (bs, src\<lparr>rstate := s'\<rparr>)))"

section \<open>Properties\<close>

subsection \<open>The byte counter\<close>

lemma Write_size: "Write m p = ((n, err), m') \<Longrightarrow> mh_size m' = mh_size m + word_of_int n"
  by (auto simp: Write_def split: prod.splits)

lemma Writes_size:
  "mh_size (snd (Writes m ps)) = mh_size m + word_of_int (sum_list (map fst (fst (Writes m ps))))"
proof (induction ps arbitrary: m)
  case Nil
  show ?case by simp
next
  case (Cons p ps)
  obtain n err m' where w: "Write m p = ((n, err), m')"
    by (metis prod.exhaust)
  obtain rs m'' where ws: "Writes m' ps = (rs, m'')"
    by (metis prod.exhaust)
  from Cons.IH [of m'] ws have "mh_size m'' = mh_size m' + word_of_int (sum_list (map fst rs))"
    by simp
  with Write_size [OF w] show ?case
    by (simp add: w ws)
qed

lemma sint_int64_of_int:
  fixes k :: int
  assumes "- (2 ^ 63) \<le> k" and "k < 2 ^ 63"
  shows "sint (word_of_int k :: int64) = k"
proof -
  have "sint (word_of_int k :: int64) = signed_take_bit 63 k"
    by (simp add: sint_sbintrunc')
  also have "\<dots> = k"
    using assms by (rule signed_take_bit_int_eq_self)
  finally show ?thesis .
qed

lemma mw_Write_ok_count: "fst (mw_Write ks hs p) = (n, None) \<Longrightarrow> n = int (length p)"
proof (induction ks arbitrary: hs)
  case Nil
  then show ?case by simp
next
  case (Cons k ks)
  show ?case
  proof (cases "hs k")
    case None
    with Cons show ?thesis by simp
  next
    case (Some hw)
    obtain n' err hw' where hwr: "Hash_Write hw p = ((n', err), hw')"
      by (metis prod.exhaust)
    from Cons.prems Some hwr
    have "err = None \<and> n' = int (length p) \<and> fst (mw_Write ks (hs(k \<mapsto> hw')) p) = (n, None)"
      by (auto split: if_splits)
    then show ?thesis using Cons.IH by blast
  qed
qed

lemma Write_ok_count: "Write m p = ((n, None), m') \<Longrightarrow> n = int (length p)"
  using mw_Write_ok_count [of "mh_w m" "mh_h m" p n]
  by (auto simp: Write_def split: prod.splits)

lemma heap_init:
  "heap init_pkg =
     [\<lparr>Width = 32, Name = ''md5'', Alias = ''MD5'', NewFunc = md5_New\<rparr>,
      \<lparr>Width = 40, Name = ''sha1'', Alias = ''SHA-1'', NewFunc = sha1_New\<rparr>,
      \<lparr>Width = 64, Name = ''sha256'', Alias = ''SHA-256'', NewFunc = sha256_New\<rparr>]"
  by (simp add: init_pkg_def reg_SHA256_def reg_SHA1_def reg_MD5_def RegisterHash_def
      empty_pkg_def Let_def)

lemma MD5_addr: "MD5 = Addr 0"
  by (simp add: MD5_def reg_MD5_def RegisterHash_def empty_pkg_def Let_def)

lemma SHA1_addr: "SHA1 = Addr 1"
  by (simp add: SHA1_def reg_SHA1_def reg_MD5_def RegisterHash_def empty_pkg_def Let_def)

lemma SHA256_addr: "SHA256 = Addr 2"
  by (simp add: SHA256_def reg_SHA256_def reg_SHA1_def reg_MD5_def RegisterHash_def
      empty_pkg_def Let_def)

lemma heap_capped:
  "heap capped_pkg = [\<lparr>Width = 6, Name = ''cap3'', Alias = ''CAP3'', NewFunc = capped_New 3\<rparr>]"
  by (simp add: capped_pkg_def RegisterHash_def empty_pkg_def Let_def)

text \<open>
  C3. After any sequence of \<^verbatim>\<open>Write\<close> calls \<^verbatim>\<open>Size()\<close> is the size before them plus the sum
  of the counts the writes returned, in the arithmetic of \<^verbatim>\<open>int64\<close>. A multi-hasher from
  \<^verbatim>\<open>NewMultiHasher\<close> starts at zero; from zero, \<^verbatim>\<open>Size()\<close> is that sum itself as long as the
  sum fits \<^verbatim>\<open>int64\<close>, and after one write of a buffer \<open>B\<close> that returned no error it is
  \<open>len(B)\<close>.
\<close>

theorem Size_after_Writes:
  assumes "Writes m ps = (rs, m')"
  shows "Size m' = Size m + word_of_int (sum_list (map fst rs)) \<and>
         (NewMultiHasher hp ord types = Inr m \<longrightarrow> Size m = 0) \<and>
         (Size m = 0 \<and> - (2 ^ 63) \<le> sum_list (map fst rs) \<and> sum_list (map fst rs) < 2 ^ 63 \<longrightarrow>
            sint (Size m') = sum_list (map fst rs)) \<and>
         (\<forall>B n. Size m = 0 \<and> ps = [B] \<and> rs = [(n, None)] \<and> length B < 2 ^ 63 \<longrightarrow>
            n = int (length B) \<and> sint (Size m') = int (length B))"
proof -
  have total: "Size m' = Size m + word_of_int (sum_list (map fst rs))"
    using Writes_size [of m ps] assms by (simp add: Size_def)
  have fits: "sint (Size m') = sum_list (map fst rs)"
    if "Size m = 0" "- (2 ^ 63) \<le> sum_list (map fst rs)" "sum_list (map fst rs) < 2 ^ 63"
    using that total sint_int64_of_int by simp
  have single: "n = int (length B) \<and> sint (Size m') = int (length B)"
    if "Size m = 0" "ps = [B]" "rs = [(n, None)]" "length B < 2 ^ 63" for B n
  proof -
    from assms that have "Write m B = ((n, None), m')"
      by (auto split: prod.splits)
    then have n: "n = int (length B)"
      by (rule Write_ok_count)
    have "sint (Size m') = sum_list (map fst rs)"
      using that n by (intro fits) simp_all
    with n that show ?thesis by simp
  qed
  have fresh: "Size m = 0" if "NewMultiHasher hp ord types = Inr m"
    using that by (auto simp: NewMultiHasher_def Size_def split: sum.splits)
  from total fresh fits single show ?thesis by blast
qed

theorem Size_after_Writes_witness:
  "\<exists>m0 m m1. NewMultiHasher (heap init_pkg) [MD5, SHA256] [MD5, SHA256] = Inr m0 \<and> Size m0 = 0 \<and>
     Writes m0 [bytes_of ''he'', bytes_of ''llo''] = ([(2, None), (3, None)], m) \<and>
     Size m = 5 \<and> sint (Size m) = 5 \<and>
     Writes m0 [bytes_of ''hello''] = ([(5, None)], m1) \<and> length (bytes_of ''hello'') < 2 ^ 63 \<and>
     Size m1 = 5 \<and> sint (Size m1) = int (length (bytes_of ''hello''))"
proof -
  define m0 :: "digest MultiHasher" where
    "m0 = \<lparr>mh_w = [Addr 0, Addr 2], mh_size = 0,
           mh_h = [Addr 0 \<mapsto> md5_New (), Addr 2 \<mapsto> sha256_New ()]\<rparr>"
  define m where "m = snd (Writes m0 [bytes_of ''he'', bytes_of ''llo''])"
  define m1 where "m1 = snd (Writes m0 [bytes_of ''hello''])"
  have new: "NewMultiHasher (heap init_pkg) [MD5, SHA256] [MD5, SHA256] = Inr m0"
    by (simp add: NewMultiHasher_def fromTypes_def toMultiWriter_def range_map_def
        List.map_filter_def heap_init MD5_addr SHA256_addr m0_def)
  have "fst (Writes m0 [bytes_of ''he'', bytes_of ''llo'']) = [(2, None), (3, None)]"
    by (simp add: m0_def Write_def Hash_Write_def md5_New_def sha256_New_def digest_Write_def
        bytes_of_def split: prod.splits)
  then have ws: "Writes m0 [bytes_of ''he'', bytes_of ''llo''] = ([(2, None), (3, None)], m)"
    by (simp add: m_def prod_eq_iff)
  have "fst (Writes m0 [bytes_of ''hello'']) = [(5, None)]"
    by (simp add: m0_def Write_def Hash_Write_def md5_New_def sha256_New_def digest_Write_def
        bytes_of_def split: prod.splits)
  then have w1: "Writes m0 [bytes_of ''hello''] = ([(5, None)], m1)"
    by (simp add: m1_def prod_eq_iff)
  have len: "length (bytes_of ''hello'') < 2 ^ 63"
    by (simp add: bytes_of_def)
  note size = Size_after_Writes [OF ws, of "heap init_pkg" "[MD5, SHA256]" "[MD5, SHA256]"]
  from size new have zero: "Size m0 = 0"
    by blast
  with size have two: "Size m = 5" "sint (Size m) = 5"
    by simp_all
  note size1 = Size_after_Writes [OF w1, of "heap init_pkg" "[MD5, SHA256]" "[MD5, SHA256]"]
  from size1 zero have "Size m1 = 5"
    by simp
  moreover from size1 zero len have "sint (Size m1) = int (length (bytes_of ''hello''))"
    by blast
  ultimately show ?thesis
    using new zero ws two w1 len by blast
qed

text \<open>
  C9. A \<^verbatim>\<open>Write\<close> that returns a count \<open>n\<close> with an error still adds \<open>n\<close> to the byte
  counter, and later writes only add to that: nothing takes the \<open>n\<close> bytes back.
\<close>

theorem Write_error_keeps_count:
  assumes "Write m p = ((n, Some e), m')"
  shows "Size m' = Size m + word_of_int n \<and>
         (- (2 ^ 63) \<le> sint (Size m) + n \<and> sint (Size m) + n < 2 ^ 63 \<longrightarrow>
            sint (Size m') = sint (Size m) + n) \<and>
         (\<forall>ps. Size (snd (Writes m' ps)) =
                 Size m + word_of_int n + word_of_int (sum_list (map fst (fst (Writes m' ps)))))"
proof -
  have one: "Size m' = Size m + word_of_int n"
    using Write_size [OF assms] by (simp add: Size_def)
  have "Size m' = word_of_int (sint (Size m) + n)"
    using one by simp
  then have fits: "sint (Size m') = sint (Size m) + n"
    if "- (2 ^ 63) \<le> sint (Size m) + n" "sint (Size m) + n < 2 ^ 63"
    using that sint_int64_of_int by metis
  have later: "Size (snd (Writes m' ps)) =
      Size m + word_of_int n + word_of_int (sum_list (map fst (fst (Writes m' ps))))" for ps
    using Writes_size [of m' ps] one by (simp add: Size_def)
  from one fits later show ?thesis by blast
qed

theorem Write_error_keeps_count_witness:
  "\<exists>m0 m'. NewMultiHasher (heap capped_pkg) [Addr 0] [Addr 0] = Inr m0 \<and> Size m0 = 0 \<and>
     Write m0 [1, 2, 3, 4, 5] = ((3, Some (OtherError ''full'')), m') \<and>
     Size m' = 3 \<and> sint (Size m') = 3 \<and>
     fst (Writes m' [[6, 7]]) = [(0, Some (OtherError ''full''))] \<and>
     Size (snd (Writes m' [[6, 7]])) = 3"
proof -
  define m0 :: "byte list MultiHasher" where
    "m0 = \<lparr>mh_w = [Addr 0], mh_size = 0, mh_h = [Addr 0 \<mapsto> capped_New 3 ()]\<rparr>"
  define m' where "m' = snd (Write m0 [1, 2, 3, 4, 5])"
  have new: "NewMultiHasher (heap capped_pkg) [Addr 0] [Addr 0] = Inr m0"
    by (simp add: NewMultiHasher_def fromTypes_def toMultiWriter_def range_map_def
        List.map_filter_def heap_capped m0_def)
  have zero: "Size m0 = 0"
    by (simp add: Size_def m0_def)
  have "fst (Write m0 [1, 2, 3, 4, 5]) = (3, Some (OtherError ''full''))"
    by (simp add: m0_def Write_def Hash_Write_def capped_New_def capped_Write_def)
  then have w: "Write m0 [1, 2, 3, 4, 5] = ((3, Some (OtherError ''full'')), m')"
    by (simp add: m'_def prod_eq_iff)
  have again: "fst (Writes m' [[6, 7]]) = [(0, Some (OtherError ''full''))]"
    by (simp add: m'_def m0_def Write_def Hash_Write_def capped_New_def capped_Write_def
        split: prod.splits)
  note keeps = Write_error_keeps_count [OF w]
  from keeps zero have now: "Size m' = 3" "sint (Size m') = 3"
    by simp_all
  from keeps have "Size (snd (Writes m' [[6, 7]])) =
      Size m0 + word_of_int 3 + word_of_int (sum_list (map fst (fst (Writes m' [[6, 7]]))))"
    by blast
  then have "Size (snd (Writes m' [[6, 7]])) = 3"
    by (simp only: again zero) simp
  with new zero w again now show ?thesis by blast
qed

subsection \<open>Digests of sample inputs\<close>

lemma HashData_MD5_hello:
  "HashData (heap init_pkg) MD5 (bytes_of ''hello'') = Inr ''5d41402abc4b2a76b9719d911017c592''"
  by code_simp

lemma HashData_MD5_llo:
  "HashData (heap init_pkg) MD5 (bytes_of ''llo'') = Inr ''7062da7393ecc31c3c0564020f85efd1''"
  by code_simp

lemma HashData_SHA256_hello:
  "HashData (heap init_pkg) SHA256 (bytes_of ''hello'') =
     Inr ''2cf24dba5fb0a30e26e83b2ac5b9e29e1b161e5c1fa7425e73043362938b9824''"
  by code_simp

text \<open>
  C8, as amended. For the five ASCII bytes of "hello", \<^verbatim>\<open>HashData\<close> returns
  \<open>5d41402abc4b2a76b9719d911017c592\<close> with the MD5 descriptor and
  \<open>2cf24dba5fb0a30e26e83b2ac5b9e29e1b161e5c1fa7425e73043362938b9824\<close> with the SHA256
  descriptor. The spec's second MD5 value, \<open>5d41402abc4b2a76b9719d911017c59\<close>, is the
  first 31 of these 32 digits and is not what the call returns.
\<close>

theorem HashData_hello:
  "HashData (heap init_pkg) MD5 (bytes_of ''hello'') = Inr ''5d41402abc4b2a76b9719d911017c592'' \<and>
   HashData (heap init_pkg) SHA256 (bytes_of ''hello'') =
     Inr ''2cf24dba5fb0a30e26e83b2ac5b9e29e1b161e5c1fa7425e73043362938b9824''"
  by (simp only: HashData_MD5_hello HashData_SHA256_hello)

theorem HashData_hello_not_31_digits:
  "HashData (heap init_pkg) MD5 (bytes_of ''hello'') \<noteq> Inr ''5d41402abc4b2a76b9719d911017c59''"
  by (simp add: HashData_MD5_hello)

subsection \<open>The standard digests hash a stream\<close>

lemma upt_shift: "[n..<n + m] = map (\<lambda>j. n + j) [0..<m]"
  by (induction m) simp_all

lemma blocks_append:
  assumes "length u mod 64 = 0"
  shows "blocks (u @ v) = blocks u @ blocks v"
proof -
  define n where "n = length u div 64"
  define m where "m = length v div 64"
  from assms have "64 dvd length u"
    by (simp add: dvd_eq_mod_eq_0)
  then have lu: "length u = 64 * n"
    by (simp add: n_def)
  have cnt: "length (u @ v) div 64 = n + m"
    by (simp add: lu m_def)
  have split: "[0..<n + m] = [0..<n] @ map (\<lambda>j. n + j) [0..<m]"
    using upt_add_eq_append [of 0 n m] by (simp add: upt_shift)
  have left: "map (\<lambda>i. take 64 (drop (64 * i) (u @ v))) [0..<n] =
      map (\<lambda>i. take 64 (drop (64 * i) u)) [0..<n]"
  proof (rule map_cong [OF refl])
    fix i assume "i \<in> set [0..<n]"
    then have "64 * i + 64 \<le> length u"
      by (simp add: lu)
    then show "take 64 (drop (64 * i) (u @ v)) = take 64 (drop (64 * i) u)"
      by simp
  qed
  have right: "map (\<lambda>i. take 64 (drop (64 * i) (u @ v))) (map (\<lambda>j. n + j) [0..<m]) =
      map (\<lambda>i. take 64 (drop (64 * i) v)) [0..<m]"
  proof -
    have "drop (64 * (n + j)) (u @ v) = drop (64 * j) v" for j
    proof -
      have "64 * (n + j) = length u + 64 * j"
        by (simp add: lu)
      then show ?thesis
        by (simp only: drop_append) simp
    qed
    then have "(\<lambda>i. take 64 (drop (64 * i) (u @ v))) \<circ> (\<lambda>j. n + j) =
        (\<lambda>i. take 64 (drop (64 * i) v))"
      by (simp only: comp_def)
    then show ?thesis
      by (simp only: map_map)
  qed
  have "blocks (u @ v) = map (\<lambda>i. take 64 (drop (64 * i) (u @ v))) [0..<n + m]"
    by (simp only: blocks_def cnt)
  also have "\<dots> = map (\<lambda>i. take 64 (drop (64 * i) u)) [0..<n] @
      map (\<lambda>i. take 64 (drop (64 * i) v)) [0..<m]"
    by (simp only: split map_append left right)
  also have "\<dots> = blocks u @ blocks v"
    by (simp only: blocks_def n_def m_def)
  finally show ?thesis .
qed

lemma blocks_Nil: "blocks [] = []"
  by (simp add: blocks_def)

lemma digest_Write_append:
  assumes blk: "\<And>s u v. length u mod 64 = 0 \<Longrightarrow> block s (u @ v) = block (block s u) v"
  shows "snd (digest_Write block (snd (digest_Write block d a)) b) =
         snd (digest_Write block d (a @ b))"
proof -
  define buf1 where "buf1 = d_x d @ a"
  define q1 where "q1 = length buf1 div 64"
  define k1 where "k1 = q1 * 64"
  define buf2 where "buf2 = drop k1 buf1 @ b"
  define k2 where "k2 = length buf2 div 64 * 64"
  have k1_le: "k1 \<le> length buf1"
    by (simp add: k1_def q1_def)
  have "d_x d @ a @ b = buf1 @ b"
    by (simp add: buf1_def)
  also have "\<dots> = (take k1 buf1 @ drop k1 buf1) @ b"
    by (simp only: append_take_drop_id)
  also have "\<dots> = take k1 buf1 @ buf2"
    by (simp add: buf2_def)
  finally have whole: "d_x d @ a @ b = take k1 buf1 @ buf2" .
  have len1: "length (take k1 buf1) = k1"
    using k1_le by simp
  have k1_64: "k1 mod 64 = 0"
    by (simp add: k1_def)
  have "length (d_x d @ a @ b) = q1 * 64 + length buf2"
    using len1 by (simp only: whole length_append k1_def)
  then have "length (d_x d @ a @ b) div 64 = q1 + length buf2 div 64"
    by simp
  then have k: "length (d_x d @ a @ b) div 64 * 64 = k1 + k2"
    by (simp add: k1_def k2_def distrib_right)
  have tk: "take (k1 + k2) (take k1 buf1 @ buf2) = take k1 buf1 @ take k2 buf2"
    using len1 by simp
  have dr: "drop (k1 + k2) (take k1 buf1 @ buf2) = drop k2 buf2"
    using len1 by simp
  have bl: "block (d_s d) (take k1 buf1 @ take k2 buf2) =
      block (block (d_s d) (take k1 buf1)) (take k2 buf2)"
    using len1 k1_64 by (intro blk) simp
  have two: "snd (digest_Write block (snd (digest_Write block d a)) b) =
      \<lparr>d_s = block (block (d_s d) (take k1 buf1)) (take k2 buf2), d_x = drop k2 buf2,
       d_len = d_len d + of_nat (length a) + of_nat (length b)\<rparr>"
    by (simp only: digest_Write_def snd_conv digest.select_convs buf1_def q1_def k1_def
        buf2_def k2_def)
  have "snd (digest_Write block d (a @ b)) =
      \<lparr>d_s = block (d_s d) (take (k1 + k2) (d_x d @ a @ b)), d_x = drop (k1 + k2) (d_x d @ a @ b),
       d_len = d_len d + of_nat (length (a @ b))\<rparr>"
    by (simp only: digest_Write_def snd_conv k)
  also have "\<dots> = \<lparr>d_s = block (block (d_s d) (take k1 buf1)) (take k2 buf2), d_x = drop k2 buf2,
       d_len = d_len d + of_nat (length a) + of_nat (length b)\<rparr>"
    by (simp only: whole tk dr bl length_append of_nat_add add.assoc)
  finally show ?thesis
    by (simp only: two)
qed

lemma foldl_blocks_append:
  "length u mod 64 = 0 \<Longrightarrow>
     foldl f s (blocks (u @ v)) = foldl f (foldl f s (blocks u)) (blocks v)"
  by (simp add: blocks_append)

lemma streaming_digest:
  assumes "hWrite hh = digest_Write block" and "d_x (hstate hh) = []"
    and "\<And>s p. block s p = foldl f s (blocks p)"
  shows "streaming hh"
proof -
  have blk: "block s (u @ v) = block (block s u) v" if "length u mod 64 = 0" for s u v
    using that by (simp add: assms(3) foldl_blocks_append)
  have "snd (digest_Write block (hstate hh) []) = hstate hh"
    by (simp add: digest_Write_def assms(2,3) blocks_Nil)
  moreover have "fst (digest_Write block s p) = (int (length p), None)" for s p
    by (simp add: digest_Write_def)
  ultimately show ?thesis
    unfolding streaming_def assms(1) using digest_Write_append [of block, OF blk] by blast
qed

lemma streaming_md5: "streaming (md5_New ())"
  by (rule streaming_digest [where block = md5_block and f = md5_block1])
    (simp_all add: md5_New_def md5_block_def)

lemma streaming_sha1: "streaming (sha1_New ())"
  by (rule streaming_digest [where block = sha1_block and f = sha1_block1])
    (simp_all add: sha1_New_def sha1_block_def)

lemma streaming_sha256: "streaming (sha256_New ())"
  by (rule streaming_digest [where block = sha256_block and f = sha256_block1])
    (simp_all add: sha256_New_def sha256_block_def)

subsection \<open>The digest computers of a multi-hasher\<close>

lemma Hash_Write_alt:
  "Hash_Write hh p = (fst (hWrite hh (hstate hh) p), hh\<lparr>hstate := snd (hWrite hh (hstate hh) p)\<rparr>)"
  by (simp add: Hash_Write_def split: prod.splits)

lemma mw_Write_dom: "dom (snd (mw_Write ks hs p)) = dom hs"
proof (induction ks arbitrary: hs)
  case Nil
  show ?case by simp
next
  case (Cons k ks)
  show ?case
  proof (cases "hs k")
    case None
    then show ?thesis by (simp add: Cons.IH)
  next
    case (Some hw)
    obtain n err hw' where hwr: "Hash_Write hw p = ((n, err), hw')"
      by (metis prod.exhaust)
    have d: "dom (hs(k \<mapsto> hw')) = dom hs"
      using Some by auto
    consider (failed) "err \<noteq> None" | (short) "err = None" "n \<noteq> int (length p)"
      | (ok) "err = None" "n = int (length p)"
      by blast
    then show ?thesis
    proof cases
      case failed
      then have "snd (mw_Write (k # ks) hs p) = hs(k \<mapsto> hw')"
        by (simp add: Some hwr)
      then show ?thesis by (simp only: d)
    next
      case short
      then have "snd (mw_Write (k # ks) hs p) = hs(k \<mapsto> hw')"
        by (simp add: Some hwr)
      then show ?thesis by (simp only: d)
    next
      case ok
      then have "snd (mw_Write (k # ks) hs p) = snd (mw_Write ks (hs(k \<mapsto> hw')) p)"
        by (simp add: Some hwr)
      then show ?thesis by (simp only: Cons.IH d)
    qed
  qed
qed

lemma Write_h: "mh_h (snd (Write m p)) = snd (mw_Write (mh_w m) (mh_h m) p)"
  by (simp add: Write_def split: prod.splits)

lemma Write_dom: "dom (mh_h (snd (Write m p))) = dom (mh_h m)"
  by (simp only: Write_h mw_Write_dom)

lemma Writes_dom: "dom (mh_h (snd (Writes m ps))) = dom (mh_h m)"
proof (induction ps arbitrary: m)
  case Nil
  show ?case by simp
next
  case (Cons p ps)
  have "snd (Writes m (p # ps)) = snd (Writes (snd (Write m p)) ps)"
    by (simp split: prod.splits)
  then show ?case using Cons.IH [of "snd (Write m p)"] Write_dom [of m p]
    by simp
qed

lemma deref_Inl: "deref hp t = Inl e \<Longrightarrow> e = NilDereference"
  by (cases t) (auto split: if_splits)

lemma fromTypes_loop_eq:
  "fromTypes_loop hp ts acc =
     (if \<forall>t\<in>set ts. fresh hp t \<noteq> None
      then Inr (\<lambda>t. if t \<in> set ts then fresh hp t else acc t)
      else Inl NilDereference)"
proof (induction ts arbitrary: acc)
  case Nil
  show ?case by simp
next
  case (Cons t ts)
  show ?case
  proof (cases "deref hp t")
    case (Inl e)
    then show ?thesis using deref_Inl [OF Inl] by (simp add: fresh_def)
  next
    case (Inr ht)
    have f: "fresh hp t = Some (NewFunc ht ())"
      by (simp add: fresh_def Inr)
    have e: "(\<lambda>u. if u \<in> set ts then fresh hp u else (acc(t \<mapsto> NewFunc ht ())) u) =
          (\<lambda>u. if u \<in> set (t # ts) then fresh hp u else acc u)"
      by (auto simp: f fun_eq_iff)
    have "fromTypes_loop hp (t # ts) acc = fromTypes_loop hp ts (acc(t \<mapsto> NewFunc ht ()))"
      by (simp add: Inr)
    also have "\<dots> = (if \<forall>t\<in>set ts. fresh hp t \<noteq> None
      then Inr (\<lambda>u. if u \<in> set (t # ts) then fresh hp u else acc u)
      else Inl NilDereference)"
      by (simp only: Cons.IH e)
    also have "\<dots> = (if \<forall>t\<in>set (t # ts). fresh hp t \<noteq> None
      then Inr (\<lambda>u. if u \<in> set (t # ts) then fresh hp u else acc u)
      else Inl NilDereference)"
      by (simp add: f)
    finally show ?thesis .
  qed
qed

lemma NewMultiHasher_h:
  assumes "NewMultiHasher hp ord types = Inr m0"
  shows "mh_h m0 = (\<lambda>t. if t \<in> set types then fresh hp t else None)"
    and "\<forall>t\<in>set types. fresh hp t \<noteq> None"
    and "mh_size m0 = 0"
    and "dom (mh_h m0) = set types"
    and "mh_w m0 = toMultiWriter ord (mh_h m0)"
  using assms
  by (auto simp: NewMultiHasher_def fromTypes_def fromTypes_loop_eq dom_def split: if_splits)

lemma Writes_w: "mh_w (snd (Writes m ps)) = mh_w m"
proof (induction ps arbitrary: m)
  case Nil
  show ?case by simp
next
  case (Cons p ps)
  have "snd (Writes m (p # ps)) = snd (Writes (snd (Write m p)) ps)"
    by (simp split: prod.splits)
  moreover have "mh_w (snd (Write m p)) = mh_w m"
    by (simp add: Write_def split: prod.splits)
  ultimately show ?case
    using Cons.IH [of "snd (Write m p)"] by simp
qed

lemma writers_in_store:
  assumes "NewMultiHasher hp ord types = Inr m0"
  shows "set (mh_w (snd (Writes m0 ps))) \<subseteq> dom (mh_h (snd (Writes m0 ps)))"
proof -
  have "set (toMultiWriter ord (mh_h m0)) \<subseteq> dom (mh_h m0)"
    by (auto simp: toMultiWriter_def range_map_def List.map_filter_def)
  then show ?thesis
    using NewMultiHasher_h(5) [OF assms] by (simp add: Writes_w Writes_dom)
qed

lemma Hash_Write_state:
  "snd (Hash_Write (hh\<lparr>hstate := s\<rparr>) p) = hh\<lparr>hstate := snd (hWrite hh s p)\<rparr>"
  by (simp add: Hash_Write_def split: prod.splits)

lemma streaming_foldl:
  assumes app: "\<And>s a b. snd (hWrite hh (snd (hWrite hh s a)) b) = snd (hWrite hh s (a @ b))"
  shows "foldl (\<lambda>h p. snd (Hash_Write h p)) (hh\<lparr>hstate := s\<rparr>) ps =
     (if ps = [] then hh\<lparr>hstate := s\<rparr> else hh\<lparr>hstate := snd (hWrite hh s (concat ps))\<rparr>)"
proof (induction ps arbitrary: s)
  case Nil
  show ?case by simp
next
  case (Cons p ps)
  show ?case
  proof (cases "ps = []")
    case True
    then show ?thesis
      by (simp add: Hash_Write_state)
  next
    case False
    then show ?thesis
      by (simp add: Hash_Write_state Cons.IH app)
  qed
qed

lemma streaming_foldl_fresh:
  assumes "streaming hh"
  shows "foldl (\<lambda>h p. snd (Hash_Write h p)) hh ps = snd (Hash_Write hh (concat ps))"
proof -
  from assms have app: "\<And>s a b. snd (hWrite hh (snd (hWrite hh s a)) b) = snd (hWrite hh s (a @ b))"
    and emp: "snd (hWrite hh (hstate hh) []) = hstate hh"
    by (simp_all add: streaming_def)
  have "foldl (\<lambda>h p. snd (Hash_Write h p)) (hh\<lparr>hstate := hstate hh\<rparr>) ps =
      snd (Hash_Write hh (concat ps))"
    unfolding streaming_foldl [of hh, OF app]
    by (cases "ps = []") (simp_all add: Hash_Write_alt emp)
  then show ?thesis by simp
qed

lemma mw_Write_all:
  assumes "distinct ks"
    and "\<And>k hw s. hs k = Some hw \<Longrightarrow> fst (hWrite hw s p) = (int (length p), None)"
  shows "mw_Write ks hs p =
     ((int (length p), None),
      (\<lambda>k. if k \<in> set ks then map_option (\<lambda>hw. snd (Hash_Write hw p)) (hs k) else hs k))"
  using assms
proof (induction ks arbitrary: hs)
  case Nil
  show ?case by simp
next
  case (Cons k ks)
  from Cons.prems(1) have dk: "distinct ks" and nk: "k \<notin> set ks"
    by simp_all
  show ?case
  proof (cases "hs k")
    case None
    have "(\<lambda>j. if j \<in> set ks then map_option (\<lambda>hw. snd (Hash_Write hw p)) (hs j) else hs j) =
        (\<lambda>j. if j \<in> set (k # ks) then map_option (\<lambda>hw. snd (Hash_Write hw p)) (hs j) else hs j)"
      using None by (auto simp: fun_eq_iff)
    with Cons.IH [OF dk Cons.prems(2)] None show ?thesis
      by simp
  next
    case (Some hw)
    define hw' where "hw' = snd (Hash_Write hw p)"
    from Cons.prems(2) [OF Some] have hwr: "Hash_Write hw p = ((int (length p), None), hw')"
      by (simp add: hw'_def Hash_Write_alt)
    have same: "hWrite hw' = hWrite hw"
      by (simp add: hw'_def Hash_Write_alt)
    have later: "fst (hWrite h s p) = (int (length p), None)" if "(hs(k \<mapsto> hw')) j = Some h" for j h s
    proof (cases "j = k")
      case True
      with that have "h = hw'"
        by simp
      then show ?thesis
        using Cons.prems(2) [OF Some] by (simp add: same)
    next
      case False
      with that have "hs j = Some h"
        by simp
      then show ?thesis
        by (rule Cons.prems(2))
    qed
    have "mw_Write ks (hs(k \<mapsto> hw')) p =
        ((int (length p), None),
         (\<lambda>j. if j \<in> set ks then map_option (\<lambda>hw. snd (Hash_Write hw p)) ((hs(k \<mapsto> hw')) j)
               else (hs(k \<mapsto> hw')) j))"
      by (rule Cons.IH [OF dk]) (rule later)
    also have "(\<lambda>j. if j \<in> set ks then map_option (\<lambda>hw. snd (Hash_Write hw p)) ((hs(k \<mapsto> hw')) j)
               else (hs(k \<mapsto> hw')) j) =
        (\<lambda>j. if j \<in> set (k # ks) then map_option (\<lambda>hw. snd (Hash_Write hw p)) (hs j) else hs j)"
      using Some nk by (auto simp: fun_eq_iff hw'_def)
    finally have "mw_Write ks (hs(k \<mapsto> hw')) p =
        ((int (length p), None),
         (\<lambda>j. if j \<in> set (k # ks) then map_option (\<lambda>hw. snd (Hash_Write hw p)) (hs j) else hs j))" .
    then show ?thesis
      by (simp only: mw_Write.simps Some option.case hwr prod.case) simp
  qed
qed

lemma range_map_iter_order:
  assumes "set ord \<subseteq> dom m"
  shows "range_map ord m = map (\<lambda>k. (k, the (m k))) ord"
  using assms
proof (induction ord)
  case Nil
  show ?case by (simp add: range_map_def List.map_filter_def)
next
  case (Cons k ks)
  then obtain v where "m k = Some v"
    by auto
  with Cons show ?case
    by (simp add: range_map_def List.map_filter_def)
qed

lemma toMultiWriter_iter_order: "iter_order ord hs \<Longrightarrow> toMultiWriter ord hs = ord"
  by (simp add: toMultiWriter_def iter_order_def range_map_iter_order comp_def)

lemma Writes_all:
  assumes "distinct (mh_w m)" and "set (mh_w m) = dom (mh_h m)"
    and "\<And>k hw s p. mh_h m k = Some hw \<Longrightarrow> fst (hWrite hw s p) = (int (length p), None)"
  shows "mh_h (snd (Writes m ps)) k =
     map_option (\<lambda>hw. foldl (\<lambda>h p. snd (Hash_Write h p)) hw ps) (mh_h m k)"
  using assms
proof (induction ps arbitrary: m)
  case Nil
  show ?case
    by (simp add: option.map_ident)
next
  case (Cons p ps)
  define m' where "m' = snd (Write m p)"
  have step: "snd (Writes m (p # ps)) = snd (Writes m' ps)"
    by (simp add: m'_def split: prod.splits)
  have "mw_Write (mh_w m) (mh_h m) p =
      ((int (length p), None),
       (\<lambda>j. if j \<in> set (mh_w m) then map_option (\<lambda>hw. snd (Hash_Write hw p)) (mh_h m j)
             else mh_h m j))"
    using Cons.prems(1) by (rule mw_Write_all) (rule Cons.prems(3))
  moreover have "(\<lambda>j. if j \<in> set (mh_w m) then map_option (\<lambda>hw. snd (Hash_Write hw p)) (mh_h m j)
             else mh_h m j) = (\<lambda>j. map_option (\<lambda>hw. snd (Hash_Write hw p)) (mh_h m j))"
    using Cons.prems(2) by (auto simp: fun_eq_iff domIff)
  ultimately have h': "mh_h m' = (\<lambda>j. map_option (\<lambda>hw. snd (Hash_Write hw p)) (mh_h m j))"
    by (simp add: m'_def Write_h)
  have w': "mh_w m' = mh_w m"
    by (simp add: m'_def Write_def split: prod.splits)
  have "dom (mh_h m') = dom (mh_h m)"
    unfolding m'_def by (rule Write_dom)
  with Cons.prems(2) w' have d': "set (mh_w m') = dom (mh_h m')"
    by simp
  have c': "fst (hWrite hw s q) = (int (length q), None)" if "mh_h m' j = Some hw" for j hw s q
  proof -
    from that obtain hw0 where "mh_h m j = Some hw0" and "hw = snd (Hash_Write hw0 p)"
      by (auto simp: h')
    then show ?thesis
      using Cons.prems(3) [of j hw0] by (simp add: Hash_Write_alt)
  qed
  have "mh_h (snd (Writes m' ps)) k =
      map_option (\<lambda>hw. foldl (\<lambda>h p. snd (Hash_Write h p)) hw ps) (mh_h m' k)"
    using Cons.prems(1) d' by (intro Cons.IH) (simp_all add: w' c')
  also have "\<dots> = map_option (\<lambda>hw. foldl (\<lambda>h p. snd (Hash_Write h p)) hw (p # ps)) (mh_h m k)"
    by (simp add: h' option.map_comp comp_def)
  finally show ?case
    by (simp only: step)
qed

text \<open>
  C2. On a multi-hasher built by \<^verbatim>\<open>NewMultiHasher\<close> for the descriptors \<open>types\<close> and
  written to any number of times, \<^verbatim>\<open>Sum(d)\<close> returns \<^verbatim>\<open>ErrUnsupported\<close> exactly when \<open>d\<close> is
  not among \<open>types\<close>; when it is, \<^verbatim>\<open>Sum(d)\<close> returns the digest of the digest computer
  held for \<open>d\<close>, and no error. When the digest computers of \<open>types\<close> hash a stream, as the
  standard ones do, that digest is the digest of all the bytes written so far: in
  hexadecimal, what \<^verbatim>\<open>HashData\<close> returns for \<open>d\<close> and these bytes.
\<close>

theorem Sum_unsupported_iff:
  assumes "NewMultiHasher hp ord types = Inr m0"
  shows "(snd (Sum_mh (snd (Writes m0 ps)) d) = Some ErrUnsupported) = (d \<notin> set types) \<and>
         (d \<notin> set types \<longrightarrow> Sum_mh (snd (Writes m0 ps)) d = ([], Some ErrUnsupported)) \<and>
         (d \<in> set types \<longrightarrow>
            (\<exists>hh. mh_h (snd (Writes m0 ps)) d = Some hh \<and>
                  Sum_mh (snd (Writes m0 ps)) d = (Hash_Sum hh [], None))) \<and>
         (d \<in> set types \<and> iter_order ord (mh_h m0) \<and>
          (\<forall>t\<in>set types. \<forall>ht. deref hp t = Inr ht \<longrightarrow> streaming (NewFunc ht ())) \<longrightarrow>
            HashData hp d (concat ps) =
              Inr (EncodeToString (fst (Sum_mh (snd (Writes m0 ps)) d))))"
proof -
  note new = NewMultiHasher_h [OF assms]
  have "dom (mh_h (snd (Writes m0 ps))) = set types"
    using Writes_dom [of m0 ps] new(4) by simp
  then have "(mh_h (snd (Writes m0 ps)) d = None) = (d \<notin> set types)"
    by (metis domIff)
  then have basic: "(snd (Sum_mh (snd (Writes m0 ps)) d) = Some ErrUnsupported) = (d \<notin> set types) \<and>
         (d \<notin> set types \<longrightarrow> Sum_mh (snd (Writes m0 ps)) d = ([], Some ErrUnsupported)) \<and>
         (d \<in> set types \<longrightarrow>
            (\<exists>hh. mh_h (snd (Writes m0 ps)) d = Some hh \<and>
                  Sum_mh (snd (Writes m0 ps)) d = (Hash_Sum hh [], None)))"
    by (cases "mh_h (snd (Writes m0 ps)) d") (simp_all add: Sum_mh_def)
  have current: "HashData hp d (concat ps) =
      Inr (EncodeToString (fst (Sum_mh (snd (Writes m0 ps)) d)))"
    if d: "d \<in> set types" and io: "iter_order ord (mh_h m0)"
      and st: "\<forall>t\<in>set types. \<forall>ht. deref hp t = Inr ht \<longrightarrow> streaming (NewFunc ht ())"
  proof -
    from new(2) d have "fresh hp d \<noteq> None"
      by blast
    then obtain ht where ht: "deref hp d = Inr ht"
      by (auto simp: fresh_def split: sum.splits)
    with st d have sd: "streaming (NewFunc ht ())"
      by blast
    have w0: "mh_w m0 = ord"
      using new(5) io by (simp add: toMultiWriter_iter_order)
    have counting: "fst (hWrite hw s p) = (int (length p), None)" if "mh_h m0 k = Some hw" for k hw s p
    proof -
      from that new(1) have k: "k \<in> set types" and "fresh hp k = Some hw"
        by (auto split: if_splits)
      then obtain t where "deref hp k = Inr t" and "hw = NewFunc t ()"
        by (auto simp: fresh_def split: sum.splits)
      with st k show ?thesis
        by (auto simp: streaming_def)
    qed
    have "mh_h m0 d = Some (NewFunc ht ())"
      using new(1) d ht by (simp add: fresh_def)
    moreover have "mh_h (snd (Writes m0 ps)) d =
        map_option (\<lambda>hw. foldl (\<lambda>h p. snd (Hash_Write h p)) hw ps) (mh_h m0 d)"
      using io counting unfolding iter_order_def w0 [symmetric] by (intro Writes_all) blast+
    ultimately have "mh_h (snd (Writes m0 ps)) d = Some (snd (Hash_Write (NewFunc ht ()) (concat ps)))"
      by (simp add: streaming_foldl_fresh [OF sd])
    then show ?thesis
      by (simp add: Sum_mh_def HashData_def ht split: prod.splits)
  qed
  from basic current show ?thesis
    by blast
qed

theorem Sum_unsupported_iff_witness:
  "\<exists>m0. NewMultiHasher (heap init_pkg) [SHA256, MD5] [MD5, SHA256] = Inr m0 \<and>
     SHA1 \<notin> set [MD5, SHA256] \<and>
     Sum_mh (snd (Writes m0 [bytes_of ''hello''])) SHA1 = ([], Some ErrUnsupported) \<and>
     MD5 \<in> set [MD5, SHA256] \<and> SHA256 \<in> set [MD5, SHA256] \<and>
     snd (Sum_mh (snd (Writes m0 [bytes_of ''hello''])) MD5) = None \<and>
     snd (Sum_mh (snd (Writes m0 [bytes_of ''hello''])) SHA256) = None \<and>
     iter_order [SHA256, MD5] (mh_h m0) \<and> streaming (md5_New ()) \<and> streaming (sha256_New ()) \<and>
     EncodeToString (fst (Sum_mh (snd (Writes m0 [bytes_of ''hello''])) MD5)) =
       ''5d41402abc4b2a76b9719d911017c592'' \<and>
     EncodeToString (fst (Sum_mh (snd (Writes m0 [bytes_of ''hello''])) SHA256)) =
       ''2cf24dba5fb0a30e26e83b2ac5b9e29e1b161e5c1fa7425e73043362938b9824''"
proof -
  define m0 :: "digest MultiHasher" where
    "m0 = \<lparr>mh_w = [Addr 2, Addr 0], mh_size = 0,
           mh_h = [Addr 0 \<mapsto> md5_New (), Addr 2 \<mapsto> sha256_New ()]\<rparr>"
  define m where "m = snd (Writes m0 [bytes_of ''hello''])"
  have new: "NewMultiHasher (heap init_pkg) [SHA256, MD5] [MD5, SHA256] = Inr m0"
    by (simp add: NewMultiHasher_def fromTypes_def toMultiWriter_def range_map_def
        List.map_filter_def heap_init MD5_addr SHA256_addr m0_def)
  have out: "SHA1 \<notin> set [MD5, SHA256]" and in1: "MD5 \<in> set [MD5, SHA256]"
    and in2: "SHA256 \<in> set [MD5, SHA256]"
    by (simp_all add: MD5_addr SHA1_addr SHA256_addr)
  have io: "iter_order [SHA256, MD5] (mh_h m0)"
    by (auto simp: iter_order_def m0_def MD5_addr SHA256_addr)
  have st: "\<forall>t\<in>set [MD5, SHA256]. \<forall>ht. deref (heap init_pkg) t = Inr ht \<longrightarrow> streaming (NewFunc ht ())"
    using streaming_md5 streaming_sha256 by (auto simp: heap_init MD5_addr SHA256_addr)
  have cat: "concat [bytes_of ''hello''] = bytes_of ''hello''"
    by simp
  note s0 = Sum_unsupported_iff [OF new, of "[bytes_of ''hello'']" SHA1]
  note s1 = Sum_unsupported_iff [OF new, of "[bytes_of ''hello'']" MD5]
  note s2 = Sum_unsupported_iff [OF new, of "[bytes_of ''hello'']" SHA256]
  from s0 out have a: "Sum_mh m SHA1 = ([], Some ErrUnsupported)"
    unfolding m_def by blast
  from s1 in1 have b1: "snd (Sum_mh m MD5) = None"
    unfolding m_def by auto
  from s2 in2 have b2: "snd (Sum_mh m SHA256) = None"
    unfolding m_def by auto
  from s1 in1 io st have "HashData (heap init_pkg) MD5 (concat [bytes_of ''hello'']) =
      Inr (EncodeToString (fst (Sum_mh m MD5)))"
    unfolding m_def by blast
  then have c1: "EncodeToString (fst (Sum_mh m MD5)) = ''5d41402abc4b2a76b9719d911017c592''"
    unfolding cat HashData_MD5_hello by simp
  from s2 in2 io st have "HashData (heap init_pkg) SHA256 (concat [bytes_of ''hello'']) =
      Inr (EncodeToString (fst (Sum_mh m SHA256)))"
    unfolding m_def by blast
  then have c2: "EncodeToString (fst (Sum_mh m SHA256)) =
      ''2cf24dba5fb0a30e26e83b2ac5b9e29e1b161e5c1fa7425e73043362938b9824''"
    unfolding cat HashData_SHA256_hello by simp
  from new out a in1 in2 b1 b2 io streaming_md5 streaming_sha256 c1 c2 show ?thesis
    unfolding m_def by blast
qed

subsection \<open>The registry\<close>

text \<open>
  C4. After two registrations under one canonical name the name leads to the second
  descriptor, the two descriptors are different objects that both stay readable, and
  \<^verbatim>\<open>Supported\<close> has grown by the first and then the second.
\<close>

theorem RegisterHash_same_name_twice:
  assumes "RegisterHash name a1 w1 f1 st = (d1, st1)"
    and "RegisterHash name a2 w2 f2 st1 = (d2, st2)"
  shows "d1 \<noteq> d2 \<and> name2hash st1 name = Some d1 \<and> name2hash st2 name = Some d2 \<and>
         Supported st2 = Supported st @ [d1, d2] \<and>
         deref (heap st2) d1 = Inr \<lparr>Width = w1, Name = name, Alias = a1, NewFunc = f1\<rparr> \<and>
         deref (heap st2) d2 = Inr \<lparr>Width = w2, Name = name, Alias = a2, NewFunc = f2\<rparr>"
  using assms by (auto simp: RegisterHash_def Let_def nth_append)

theorem RegisterHash_same_name_twice_witness:
  "\<exists>st1 st2.
     RegisterHash ''dup'' ''A'' 32 md5_New init_pkg = (Addr 3, st1) \<and>
     RegisterHash ''dup'' ''B'' 40 sha1_New st1 = (Addr 4, st2) \<and>
     Addr 3 \<noteq> Addr 4 \<and> name2hash st1 ''dup'' = Some (Addr 3) \<and>
     name2hash st2 ''dup'' = Some (Addr 4) \<and>
     Supported st2 = [MD5, SHA1, SHA256, Addr 3, Addr 4] \<and>
     deref (heap st2) (Addr 3) = Inr \<lparr>Width = 32, Name = ''dup'', Alias = ''A'', NewFunc = md5_New\<rparr> \<and>
     deref (heap st2) (Addr 4) = Inr \<lparr>Width = 40, Name = ''dup'', Alias = ''B'', NewFunc = sha1_New\<rparr>"
proof -
  define st1 where "st1 = snd (RegisterHash ''dup'' ''A'' 32 md5_New init_pkg)"
  define st2 where "st2 = snd (RegisterHash ''dup'' ''B'' 40 sha1_New st1)"
  have r1: "RegisterHash ''dup'' ''A'' 32 md5_New init_pkg = (Addr 3, st1)"
    by (simp add: st1_def prod_eq_iff) (simp add: RegisterHash_def Let_def heap_init)
  have "heap st1 = heap init_pkg @ [\<lparr>Width = 32, Name = ''dup'', Alias = ''A'', NewFunc = md5_New\<rparr>]"
    by (simp add: st1_def RegisterHash_def Let_def)
  then have r2: "RegisterHash ''dup'' ''B'' 40 sha1_New st1 = (Addr 4, st2)"
    by (simp add: st2_def prod_eq_iff) (simp add: RegisterHash_def Let_def heap_init)
  have sup: "Supported init_pkg = [MD5, SHA1, SHA256]"
    by (simp add: init_pkg_def reg_SHA256_def reg_SHA1_def reg_MD5_def MD5_def SHA1_def
        SHA256_def RegisterHash_def empty_pkg_def Let_def)
  from RegisterHash_same_name_twice [OF r1 r2] r1 r2 sup show ?thesis
    by (intro exI [of _ st1] exI [of _ st2]) simp
qed

text \<open>
  C7. At process start \<^verbatim>\<open>Supported\<close> holds exactly three descriptors, in this order:
  "md5" with alias "MD5" and width 32, "sha1" with alias "SHA-1" and width 40, "sha256"
  with alias "SHA-256" and width 64, each with the constructor of its standard digest;
  the two maps hold these names and aliases and no others, and each name and each alias
  leads to its descriptor.
\<close>

theorem registry_at_start:
  "Supported init_pkg = [MD5, SHA1, SHA256] \<and> distinct [MD5, SHA1, SHA256] \<and>
   length (heap init_pkg) = 3 \<and>
   deref (heap init_pkg) MD5 =
     Inr \<lparr>Width = 32, Name = ''md5'', Alias = ''MD5'', NewFunc = md5_New\<rparr> \<and>
   deref (heap init_pkg) SHA1 =
     Inr \<lparr>Width = 40, Name = ''sha1'', Alias = ''SHA-1'', NewFunc = sha1_New\<rparr> \<and>
   deref (heap init_pkg) SHA256 =
     Inr \<lparr>Width = 64, Name = ''sha256'', Alias = ''SHA-256'', NewFunc = sha256_New\<rparr> \<and>
   name2hash init_pkg = [''md5'' \<mapsto> MD5, ''sha1'' \<mapsto> SHA1, ''sha256'' \<mapsto> SHA256] \<and>
   alias2hash init_pkg = [''MD5'' \<mapsto> MD5, ''SHA-1'' \<mapsto> SHA1, ''SHA-256'' \<mapsto> SHA256] \<and>
   name2hash init_pkg ''md5'' = Some MD5 \<and> alias2hash init_pkg ''MD5'' = Some MD5 \<and>
   name2hash init_pkg ''sha1'' = Some SHA1 \<and> alias2hash init_pkg ''SHA-1'' = Some SHA1 \<and>
   name2hash init_pkg ''sha256'' = Some SHA256 \<and> alias2hash init_pkg ''SHA-256'' = Some SHA256"
  by (simp add: init_pkg_def reg_SHA256_def reg_SHA1_def reg_MD5_def MD5_def SHA1_def
      SHA256_def RegisterHash_def empty_pkg_def Let_def)

subsection \<open>One algorithm, two ways\<close>

lemma iter_order_single:
  assumes "iter_order ord hs" and "dom hs = {x}"
  shows "ord = [x]"
proof -
  from assms have d: "distinct ord" and s: "set ord = {x}"
    by (simp_all add: iter_order_def)
  from s obtain y ys where o: "ord = y # ys"
    by (cases ord) auto
  with s d have "y = x" "set ys \<subseteq> {x}" "x \<notin> set ys"
    by auto
  then have "ys = []"
    by (cases ys) auto
  with o \<open>y = x\<close> show ?thesis by simp
qed

lemma Write_single:
  assumes "mh_w m = [X]" and "mh_h m = [X \<mapsto> hw]"
  shows "mh_w (snd (Write m B)) = [X] \<and> mh_h (snd (Write m B)) = [X \<mapsto> snd (Hash_Write hw B)]"
proof -
  obtain n err hw' where hwr: "Hash_Write hw B = ((n, err), hw')"
    by (metis prod.exhaust)
  have "snd (mw_Write [X] [X \<mapsto> hw] B) = [X \<mapsto> hw']"
    by (simp add: hwr)
  then have "mh_h (snd (Write m B)) = [X \<mapsto> hw']"
    using Write_h [of m B] assms by simp
  moreover have "mh_w (snd (Write m B)) = [X]"
    using assms(1) by (simp add: Write_def split: prod.splits)
  ultimately show ?thesis
    by (simp add: hwr)
qed

lemma Writes_single:
  assumes "mh_w m = [X]" and "mh_h m = [X \<mapsto> hw]"
  shows "mh_h (snd (Writes m ps)) = [X \<mapsto> foldl (\<lambda>h p. snd (Hash_Write h p)) hw ps]"
  using assms
proof (induction ps arbitrary: m hw)
  case Nil
  then show ?case by simp
next
  case (Cons p ps)
  have step: "snd (Writes m (p # ps)) = snd (Writes (snd (Write m p)) ps)"
    by (simp split: prod.splits)
  from Write_single [OF Cons.prems, of p]
  have "mh_w (snd (Write m p)) = [X]" and "mh_h (snd (Write m p)) = [X \<mapsto> snd (Hash_Write hw p)]"
    by simp_all
  then have "mh_h (snd (Writes (snd (Write m p)) ps)) =
      [X \<mapsto> foldl (\<lambda>h p. snd (Hash_Write h p)) (snd (Hash_Write hw p)) ps]"
    by (rule Cons.IH)
  then show ?case
    by (simp only: step foldl_Cons)
qed

text \<open>
  C1. Take a multi-hasher built for the one descriptor \<open>X\<close>, write the bytes \<open>B\<close> to it,
  and read the digest of \<open>X\<close> through \<^verbatim>\<open>Sum\<close> or through \<^verbatim>\<open>GetHashInfo\<close>: in hexadecimal it
  is the string \<^verbatim>\<open>HashData(X, B)\<close> returns. With \<open>B\<close> written in one \<^verbatim>\<open>Write\<close> this holds for
  every constructor a descriptor can carry, whatever its \<^verbatim>\<open>Write\<close> returns; with \<open>B\<close>
  written in any number of pieces it holds for every digest computer that hashes a
  stream, as the three standard ones do.
\<close>

theorem single_MultiHasher_is_HashData:
  assumes "NewMultiHasher hp ord [X] = Inr m0"
    and "iter_order ord (mh_h m0)"
  shows "(\<forall>B ord'. iter_order ord' (mh_h (snd (Write m0 B))) \<longrightarrow>
            HashData hp X B = Inr (EncodeToString (fst (Sum_mh (snd (Write m0 B)) X))) \<and>
            snd (Sum_mh (snd (Write m0 B)) X) = None \<and>
            HashData hp X B = Inr (GetHash (GetHashInfo ord' (snd (Write m0 B))) X)) \<and>
         (\<forall>t ps ord'. deref hp X = Inr t \<and> streaming (NewFunc t ()) \<and>
              iter_order ord' (mh_h (snd (Writes m0 ps))) \<longrightarrow>
            HashData hp X (concat ps) = Inr (EncodeToString (fst (Sum_mh (snd (Writes m0 ps)) X))) \<and>
            snd (Sum_mh (snd (Writes m0 ps)) X) = None \<and>
            HashData hp X (concat ps) = Inr (GetHash (GetHashInfo ord' (snd (Writes m0 ps))) X))"
proof -
  note new = NewMultiHasher_h [OF assms(1)]
  from new(2) obtain t where t: "deref hp X = Inr t"
    by (auto simp: fresh_def split: sum.splits)
  define hh where "hh = NewFunc t ()"
  have fr: "fresh hp X = Some hh"
    by (simp add: fresh_def t hh_def)
  have h0: "mh_h m0 = [X \<mapsto> hh]"
    using new(1) fr by (auto simp: fun_eq_iff)
  have "ord = [X]"
    using assms(2) new(4) by (intro iter_order_single [of ord "mh_h m0"]) simp_all
  then have w0: "mh_w m0 = [X]"
    using new(5) h0 by (simp add: toMultiWriter_def range_map_def List.map_filter_def)
  have read: "Sum_mh m X = (Hash_Sum hw [], None) \<and>
      (\<forall>ord'. iter_order ord' (mh_h m) \<longrightarrow>
         GetHash (GetHashInfo ord' m) X = EncodeToString (Hash_Sum hw []))"
    if h: "mh_h m = [X \<mapsto> hw]" for m :: "'a MultiHasher" and hw
  proof (intro conjI allI impI)
    show "Sum_mh m X = (Hash_Sum hw [], None)"
      by (simp add: Sum_mh_def h)
  next
    fix ord'
    assume "iter_order ord' (mh_h m)"
    then have "ord' = [X]"
      using h by (intro iter_order_single [of ord' "mh_h m"]) simp_all
    then show "GetHash (GetHashInfo ord' m) X = EncodeToString (Hash_Sum hw [])"
      by (simp add: GetHashInfo_def GetHash_def range_map_def List.map_filter_def h)
  qed
  have data: "HashData hp X B = Inr (EncodeToString (Hash_Sum (snd (Hash_Write hh B)) []))" for B
    by (simp add: HashData_def t hh_def split: prod.splits)
  have one: "HashData hp X B = Inr (EncodeToString (fst (Sum_mh (snd (Write m0 B)) X))) \<and>
      snd (Sum_mh (snd (Write m0 B)) X) = None \<and>
      HashData hp X B = Inr (GetHash (GetHashInfo ord' (snd (Write m0 B))) X)"
    if "iter_order ord' (mh_h (snd (Write m0 B)))" for B ord'
    using read [of "snd (Write m0 B)" "snd (Hash_Write hh B)"] Write_single [OF w0 h0, of B]
      that data [of B]
    by simp
  have many: "HashData hp X (concat ps) = Inr (EncodeToString (fst (Sum_mh (snd (Writes m0 ps)) X))) \<and>
      snd (Sum_mh (snd (Writes m0 ps)) X) = None \<and>
      HashData hp X (concat ps) = Inr (GetHash (GetHashInfo ord' (snd (Writes m0 ps))) X)"
    if "deref hp X = Inr t'" and st: "streaming (NewFunc t' ())"
      and io: "iter_order ord' (mh_h (snd (Writes m0 ps)))" for t' ps ord'
  proof -
    from that(1) t have "t' = t"
      by simp
    with st have "streaming hh"
      by (simp add: hh_def)
    then have "foldl (\<lambda>h p. snd (Hash_Write h p)) hh ps = snd (Hash_Write hh (concat ps))"
      by (rule streaming_foldl_fresh)
    then have "mh_h (snd (Writes m0 ps)) = [X \<mapsto> snd (Hash_Write hh (concat ps))]"
      using Writes_single [OF w0 h0, of ps] by simp
    from read [OF this] io data [of "concat ps"] show ?thesis
      by simp
  qed
  from one many show ?thesis
    by blast
qed

theorem single_MultiHasher_is_HashData_witness:
  "\<exists>m0. NewMultiHasher (heap init_pkg) [MD5] [MD5] = Inr m0 \<and> iter_order [MD5] (mh_h m0) \<and>
     iter_order [MD5] (mh_h (snd (Write m0 (bytes_of ''hello'')))) \<and>
     HashData (heap init_pkg) MD5 (bytes_of ''hello'') = Inr ''5d41402abc4b2a76b9719d911017c592'' \<and>
     EncodeToString (fst (Sum_mh (snd (Write m0 (bytes_of ''hello''))) MD5)) =
       ''5d41402abc4b2a76b9719d911017c592'' \<and>
     snd (Sum_mh (snd (Write m0 (bytes_of ''hello''))) MD5) = None \<and>
     GetHash (GetHashInfo [MD5] (snd (Write m0 (bytes_of ''hello'')))) MD5 =
       ''5d41402abc4b2a76b9719d911017c592'' \<and>
     deref (heap init_pkg) MD5 =
       Inr \<lparr>Width = 32, Name = ''md5'', Alias = ''MD5'', NewFunc = md5_New\<rparr> \<and>
     streaming (md5_New ()) \<and>
     concat [bytes_of ''he'', bytes_of ''llo''] = bytes_of ''hello'' \<and>
     iter_order [MD5] (mh_h (snd (Writes m0 [bytes_of ''he'', bytes_of ''llo'']))) \<and>
     EncodeToString (fst (Sum_mh (snd (Writes m0 [bytes_of ''he'', bytes_of ''llo''])) MD5)) =
       ''5d41402abc4b2a76b9719d911017c592'' \<and>
     snd (Sum_mh (snd (Writes m0 [bytes_of ''he'', bytes_of ''llo''])) MD5) = None \<and>
     GetHash (GetHashInfo [MD5] (snd (Writes m0 [bytes_of ''he'', bytes_of ''llo'']))) MD5 =
       ''5d41402abc4b2a76b9719d911017c592''"
proof -
  define m0 :: "digest MultiHasher" where
    "m0 = \<lparr>mh_w = [Addr 0], mh_size = 0, mh_h = [Addr 0 \<mapsto> md5_New ()]\<rparr>"
  define m1 where "m1 = snd (Write m0 (bytes_of ''hello''))"
  define m2 where "m2 = snd (Writes m0 [bytes_of ''he'', bytes_of ''llo''])"
  have new: "NewMultiHasher (heap init_pkg) [MD5] [MD5] = Inr m0"
    by (simp add: NewMultiHasher_def fromTypes_def toMultiWriter_def range_map_def
        List.map_filter_def heap_init MD5_addr m0_def)
  have o0: "iter_order [MD5] (mh_h m0)"
    by (simp add: iter_order_def m0_def MD5_addr)
  have "dom (mh_h m1) = dom (mh_h m0)"
    unfolding m1_def by (rule Write_dom)
  then have o1: "iter_order [MD5] (mh_h m1)"
    using o0 by (simp add: iter_order_def)
  have "dom (mh_h m2) = dom (mh_h m0)"
    unfolding m2_def by (rule Writes_dom)
  then have o2: "iter_order [MD5] (mh_h m2)"
    using o0 by (simp add: iter_order_def)
  have d: "deref (heap init_pkg) MD5 =
      Inr \<lparr>Width = 32, Name = ''md5'', Alias = ''MD5'', NewFunc = md5_New\<rparr>"
    by (simp add: heap_init MD5_addr)
  have s: "streaming (NewFunc \<lparr>Width = 32, Name = ''md5'', Alias = ''MD5'', NewFunc = md5_New\<rparr> ())"
    by (simp add: streaming_md5)
  have cat: "concat [bytes_of ''he'', bytes_of ''llo''] = bytes_of ''hello''"
    by (simp add: bytes_of_def)
  note same = single_MultiHasher_is_HashData [OF new o0]
  from same o1
  have "HashData (heap init_pkg) MD5 (bytes_of ''hello'') =
        Inr (EncodeToString (fst (Sum_mh m1 MD5))) \<and>
      snd (Sum_mh m1 MD5) = None \<and>
      HashData (heap init_pkg) MD5 (bytes_of ''hello'') =
        Inr (GetHash (GetHashInfo [MD5] m1) MD5)"
    unfolding m1_def by blast
  then have one: "EncodeToString (fst (Sum_mh m1 MD5)) = ''5d41402abc4b2a76b9719d911017c592''"
      "snd (Sum_mh m1 MD5) = None"
      "GetHash (GetHashInfo [MD5] m1) MD5 = ''5d41402abc4b2a76b9719d911017c592''"
    unfolding HashData_MD5_hello by auto
  from same d s o2
  have "HashData (heap init_pkg) MD5 (concat [bytes_of ''he'', bytes_of ''llo'']) =
        Inr (EncodeToString (fst (Sum_mh m2 MD5))) \<and>
      snd (Sum_mh m2 MD5) = None \<and>
      HashData (heap init_pkg) MD5 (concat [bytes_of ''he'', bytes_of ''llo'']) =
        Inr (GetHash (GetHashInfo [MD5] m2) MD5)"
    unfolding m2_def by blast
  then have two: "EncodeToString (fst (Sum_mh m2 MD5)) = ''5d41402abc4b2a76b9719d911017c592''"
      "snd (Sum_mh m2 MD5) = None"
      "GetHash (GetHashInfo [MD5] m2) MD5 = ''5d41402abc4b2a76b9719d911017c592''"
    unfolding cat HashData_MD5_hello by auto
  from new o0 o1 o2 d streaming_md5 cat one two HashData_MD5_hello show ?thesis
    unfolding m1_def m2_def by blast
qed

subsection \<open>Rendering a result set\<close>

lemma String_loop_eq:
  assumes "\<forall>(ht, str)\<in>set kvs. str \<noteq> [] \<longrightarrow> (\<exists>t. deref hp ht = Inr t)"
  shows "String_loop hp kvs tmp =
     Inr (tmp @ map (\<lambda>(ht, str). (case deref hp ht of Inl e \<Rightarrow> [] | Inr t \<Rightarrow> Name t @ '':'' @ str))
                  (filter (\<lambda>(ht, str). str \<noteq> []) kvs))"
  using assms
proof (induction kvs arbitrary: tmp)
  case Nil
  show ?case by simp
next
  case (Cons kv kvs)
  obtain ht str where kv: "kv = (ht, str)"
    by (cases kv)
  from Cons.prems have rest: "\<forall>(ht, str)\<in>set kvs. str \<noteq> [] \<longrightarrow> (\<exists>t. deref hp ht = Inr t)"
    by simp
  show ?case
  proof (cases "str = []")
    case True
    then show ?thesis using Cons.IH [OF rest] by (simp add: kv)
  next
    case False
    with Cons.prems kv obtain t where t: "deref hp ht = Inr t"
      by auto
    from False t show ?thesis using Cons.IH [OF rest] by (simp add: kv)
  qed
qed

lemma lines_of_no_newline: "CHR 0x0A \<notin> set l \<Longrightarrow> lines_of l = [l]"
  by (induction l) auto

lemma lines_of_line: "CHR 0x0A \<notin> set l \<Longrightarrow> lines_of (l @ CHR 0x0A # rest) = l # lines_of rest"
  by (induction l) auto

lemma lines_of_Join:
  assumes "tmp \<noteq> []" and "\<forall>l\<in>set tmp. CHR 0x0A \<notin> set l"
  shows "lines_of (Join tmp [CHR 0x0A]) = tmp"
  using assms
proof (induction tmp "[CHR 0x0A]" rule: Join.induct)
  case 1
  then show ?case by simp
next
  case (2 e)
  then show ?case by (simp add: lines_of_no_newline)
next
  case (3 e v va)
  then show ?case by (simp add: lines_of_line)
qed

text \<open>
  C5. When the descriptors of the entries with a non-empty digest can be read, \<^verbatim>\<open>String()\<close>
  returns the newline-joined list \<open>tmp\<close> of lines \<open>name:digest\<close>, and that list holds one
  line for each entry with a non-empty digest and nothing else, in whatever order the
  map is visited. When no name or digest has a newline of its own, the lines of the
  rendered text are exactly that list; with no such entry the text is empty.
\<close>

theorem String_one_line_per_digest:
  assumes "iter_order ord (hi_h hi)"
    and "\<forall>ht. GetHash hi ht \<noteq> [] \<longrightarrow> (\<exists>t. deref hp ht = Inr t)"
  shows "\<exists>tmp. String hp ord hi = Inr (Join tmp [CHR 0x0A]) \<and>
           mset tmp = image_mset (line_of hp hi)
             (filter_mset (\<lambda>ht. GetHash hi ht \<noteq> []) (mset_set (dom (hi_h hi)))) \<and>
           (tmp \<noteq> [] \<and> (\<forall>l\<in>set tmp. CHR 0x0A \<notin> set l) \<longrightarrow>
              lines_of (Join tmp [CHR 0x0A]) = tmp) \<and>
           (tmp = [] \<longrightarrow> Join tmp [CHR 0x0A] = [])"
proof -
  define tmp where "tmp = map (line_of hp hi) (filter (\<lambda>ht. GetHash hi ht \<noteq> []) ord)"
  from assms(1) have d: "distinct ord" and s: "set ord = dom (hi_h hi)"
    by (simp_all add: iter_order_def)
  have rm: "range_map ord (hi_h hi) = map (\<lambda>k. (k, the (hi_h hi k))) ord"
    using s by (intro range_map_iter_order) simp
  have get: "GetHash hi k = the (hi_h hi k)" if "k \<in> set ord" for k
    using that s by (auto simp: GetHash_def)
  have ok: "\<forall>(ht, str)\<in>set (range_map ord (hi_h hi)). str \<noteq> [] \<longrightarrow> (\<exists>t. deref hp ht = Inr t)"
    using assms(2) get by (auto simp: rm)
  have "map (\<lambda>(ht, str). (case deref hp ht of Inl e \<Rightarrow> [] | Inr t \<Rightarrow> Name t @ '':'' @ str))
          (filter (\<lambda>(ht, str). str \<noteq> []) (range_map ord (hi_h hi))) = tmp"
    unfolding rm tmp_def filter_map map_map
    by (rule map_cong [OF filter_cong [OF refl]]) (auto simp: get line_of_def split: sum.splits)
  with String_loop_eq [OF ok, of "[]"] have str: "String hp ord hi = Inr (Join tmp [CHR 0x0A])"
    by (simp add: String_def)
  have "mset ord = mset_set (dom (hi_h hi))"
    using d s by (metis mset_set_set)
  moreover have "mset tmp = image_mset (line_of hp hi)
      (filter_mset (\<lambda>ht. GetHash hi ht \<noteq> []) (mset ord))"
    by (simp add: tmp_def)
  ultimately have ms: "mset tmp = image_mset (line_of hp hi)
      (filter_mset (\<lambda>ht. GetHash hi ht \<noteq> []) (mset_set (dom (hi_h hi))))"
    by simp
  have ln: "lines_of (Join tmp [CHR 0x0A]) = tmp" if "tmp \<noteq> []" "\<forall>l\<in>set tmp. CHR 0x0A \<notin> set l"
    using that by (rule lines_of_Join)
  have "Join tmp [CHR 0x0A] = []" if "tmp = []"
    using that by simp
  with str ms ln show ?thesis by blast
qed

theorem String_one_line_per_digest_witness:
  "iter_order [SHA1, MD5] (hi_h \<lparr>hi_h = [MD5 \<mapsto> [], SHA1 \<mapsto> ''abc123'']\<rparr>) \<and>
   String (heap init_pkg) [SHA1, MD5] \<lparr>hi_h = [MD5 \<mapsto> [], SHA1 \<mapsto> ''abc123'']\<rparr> = Inr ''sha1:abc123'' \<and>
   lines_of ''sha1:abc123'' = [''sha1:abc123''] \<and>
   iter_order [MD5] (hi_h \<lparr>hi_h = [MD5 \<mapsto> []]\<rparr>) \<and>
   String (heap init_pkg) [MD5] \<lparr>hi_h = [MD5 \<mapsto> []]\<rparr> = Inr []"
proof -
  define hi where "hi = \<lparr>hi_h = [MD5 \<mapsto> [], SHA1 \<mapsto> ''abc123'']\<rparr>"
  define hi0 where "hi0 = \<lparr>hi_h = [MD5 \<mapsto> []]\<rparr>"
  have neq: "MD5 \<noteq> SHA1"
    by (simp add: MD5_addr SHA1_addr)
  have io: "iter_order [SHA1, MD5] (hi_h hi)"
    using neq by (auto simp: iter_order_def hi_def)
  have gh: "GetHash hi ht \<noteq> [] \<longleftrightarrow> ht = SHA1" for ht
    using neq by (auto simp: GetHash_def hi_def)
  have rd: "\<forall>ht. GetHash hi ht \<noteq> [] \<longrightarrow> (\<exists>t. deref (heap init_pkg) ht = Inr t)"
    by (simp add: gh SHA1_addr heap_init)
  have "dom (hi_h hi) = {MD5, SHA1}"
    by (auto simp: hi_def)
  then have "{#ht \<in># mset_set (dom (hi_h hi)). GetHash hi ht \<noteq> []#} = {#SHA1#}"
    using neq by (simp add: gh)
  moreover have "line_of (heap init_pkg) hi SHA1 = ''sha1:abc123''"
    using neq by (simp add: line_of_def SHA1_addr heap_init GetHash_def hi_def)
  ultimately have "image_mset (line_of (heap init_pkg) hi)
      {#ht \<in># mset_set (dom (hi_h hi)). GetHash hi ht \<noteq> []#} = {#''sha1:abc123''#}"
    by simp
  with String_one_line_per_digest [OF io rd]
  obtain tmp where str: "String (heap init_pkg) [SHA1, MD5] hi = Inr (Join tmp [CHR 0x0A])"
    and "mset tmp = {#''sha1:abc123''#}"
    and ln: "tmp \<noteq> [] \<and> (\<forall>l\<in>set tmp. CHR 0x0A \<notin> set l) \<longrightarrow> lines_of (Join tmp [CHR 0x0A]) = tmp"
    by auto
  then have tmp: "tmp = [''sha1:abc123'']"
    by (metis mset_single_iff_right)
  from ln have lines: "lines_of ''sha1:abc123'' = [''sha1:abc123'']"
    unfolding tmp by simp
  have io0: "iter_order [MD5] (hi_h hi0)"
    by (simp add: iter_order_def hi0_def)
  have gh0: "GetHash hi0 ht = []" for ht
    by (simp add: GetHash_def hi0_def)
  have rd0: "\<forall>ht. GetHash hi0 ht \<noteq> [] \<longrightarrow> (\<exists>t. deref (heap init_pkg) ht = Inr t)"
    by (simp add: gh0)
  from String_one_line_per_digest [OF io0 rd0]
  obtain tmp0 where str0: "String (heap init_pkg) [MD5] hi0 = Inr (Join tmp0 [CHR 0x0A])"
    and "mset tmp0 = image_mset (line_of (heap init_pkg) hi0)
      {#ht \<in># mset_set (dom (hi_h hi0)). GetHash hi0 ht \<noteq> []#}"
    and "tmp0 = [] \<longrightarrow> Join tmp0 [CHR 0x0A] = []"
    by auto
  then have "Join tmp0 [CHR 0x0A] = []"
    by (simp add: gh0)
  with str0 have none: "String (heap init_pkg) [MD5] hi0 = Inr []"
    by simp
  from str tmp lines io io0 none show ?thesis
    by (simp add: hi_def hi0_def)
qed

subsection \<open>\<^verbatim>\<open>GetMD5EncodeStr\<close>\<close>

lemma md5_block1_length: "length (md5_block1 st q) = length st"
proof (cases "\<exists>aa bb cc dd. st = [aa, bb, cc, dd]")
  case True
  then obtain aa bb cc dd where st: "st = [aa, bb, cc, dd]"
    by blast
  obtain a b c d where "foldl (md5_step (words_of LEUint32 q)) (aa, bb, cc, dd) [0..<64] = (a, b, c, d)"
    by (metis prod.exhaust)
  then show ?thesis
    by (simp add: st)
next
  case False
  then have "md5_block1 st q = st"
    by (cases "(st, q)" rule: md5_block1.cases) auto
  then show ?thesis by simp
qed

lemma md5_block_length: "length (md5_block st p) = length st"
proof -
  have "length (foldl md5_block1 st qs) = length st" for qs
    by (induction qs arbitrary: st) (simp_all add: md5_block1_length)
  then show ?thesis
    by (simp add: md5_block_def)
qed

lemma md5_checkSum_length: "length (md5_checkSum d) = 4 * length (d_s d)"
proof -
  have "length (concat (map LEPutUint32 ws)) = 4 * length ws" for ws
    by (induction ws) (simp_all add: LEPutUint32_def)
  then show ?thesis
    by (simp add: md5_checkSum_def digest_Write_def md5_block_length)
qed

lemma EncodeToString_length: "length (EncodeToString src) = 2 * length src"
  by (induction src) (simp_all add: EncodeToString_def)

text \<open>
  C10. \<^verbatim>\<open>GetMD5EncodeStr(s)\<close> is \<^verbatim>\<open>HashData\<close> with the MD5 descriptor on the bytes of \<open>s\<close>. On
  the heap of the process start, and on any heap grown from it, the call does not panic
  and returns 32 hexadecimal digits, the width the descriptor declares.
\<close>

theorem GetMD5EncodeStr_is_HashData:
  "GetMD5EncodeStr hp s = HashData hp MD5 (bytes_of s) \<and>
   (\<exists>str. GetMD5EncodeStr (heap init_pkg @ later) s = Inr str \<and> length str = 32)"
proof -
  have "deref (heap init_pkg @ later) MD5 =
      Inr \<lparr>Width = 32, Name = ''md5'', Alias = ''MD5'', NewFunc = md5_New\<rparr>"
    by (simp add: heap_init MD5_addr)
  then have "GetMD5EncodeStr (heap init_pkg @ later) s =
      Inr (EncodeToString (md5_checkSum (snd (digest_Write md5_block
        \<lparr>d_s = [0x67452301, 0xefcdab89, 0x98badcfe, 0x10325476], d_x = [], d_len = 0\<rparr>
        (bytes_of s)))))"
    by (simp add: GetMD5EncodeStr_def HashData_def Hash_Write_def Hash_Sum_def md5_New_def
        md5_Sum_def split: prod.splits)
  moreover have "length (EncodeToString (md5_checkSum (snd (digest_Write md5_block
        \<lparr>d_s = [0x67452301, 0xefcdab89, 0x98badcfe, 0x10325476], d_x = [], d_len = 0\<rparr>
        (bytes_of s))))) = 32"
    by (simp add: EncodeToString_length md5_checkSum_length digest_Write_def md5_block_length)
  ultimately show ?thesis
    by (simp add: GetMD5EncodeStr_def)
qed

subsection \<open>Copying a source into a digest computer\<close>

lemma copyBuffer_loop_reads:
  assumes cnt: "\<And>s p. fst (hWrite hh s p) = (int (length p), None)"
    and app: "\<And>s a b. snd (hWrite hh (snd (hWrite hh s a)) b) = snd (hWrite hh s (a @ b))"
  shows "reads_to_end k src = Some (bs, src') \<Longrightarrow> snd (hWrite hh s []) = s \<Longrightarrow>
     copyBuffer_loop (hh\<lparr>hstate := s\<rparr>) src =
       Some (Inr (None, hh\<lparr>hstate := snd (hWrite hh s bs)\<rparr>, src'))"
proof (induction k arbitrary: src s bs)
  case 0
  then show ?case by simp
next
  case (Suc k)
  from Suc.prems(1) obtain buf er src1 where rd: "RS_Read src 32768 = Inr ((buf, er), src1)"
    by (cases "RS_Read src 32768") auto
  with Suc.prems(1) have small: "\<not> 32768 < length buf"
    by (auto split: if_splits)
  have w: "Hash_Write (hh\<lparr>hstate := s\<rparr>) buf =
      ((int (length buf), None), hh\<lparr>hstate := snd (hWrite hh s buf)\<rparr>)"
    by (simp add: Hash_Write_alt cnt)
  show ?case
  proof (cases "er = Some EOF")
    case True
    with Suc.prems(1) rd small have bs: "bs = buf" "src' = src1"
      by simp_all
    show ?thesis
    proof (cases "buf = []")
      case True
      with \<open>er = Some EOF\<close> rd bs Suc.prems(2) show ?thesis
        by (subst copyBuffer_loop.simps) simp
    next
      case False
      with \<open>er = Some EOF\<close> rd bs small w show ?thesis
        by (subst copyBuffer_loop.simps) (simp add: write_outcome_def)
    qed
  next
    case False
    with Suc.prems(1) rd small have er: "er = None"
      by (auto split: if_splits)
    from Suc.prems(1) rd small er obtain bs'
      where rec: "reads_to_end k src1 = Some (bs', src')" and bs: "bs = buf @ bs'"
      by (auto split: option.splits)
    show ?thesis
    proof (cases "buf = []")
      case True
      with rd er have "copyBuffer_loop (hh\<lparr>hstate := s\<rparr>) src =
          copyBuffer_loop (hh\<lparr>hstate := s\<rparr>) src1"
        by (subst copyBuffer_loop.simps) simp
      also have "\<dots> = Some (Inr (None, hh\<lparr>hstate := snd (hWrite hh s bs')\<rparr>, src'))"
        by (rule Suc.IH [OF rec Suc.prems(2)])
      finally show ?thesis
        using bs True by simp
    next
      case False
      have inv: "snd (hWrite hh (snd (hWrite hh s buf)) []) = snd (hWrite hh s buf)"
        by (simp add: app)
      from False rd er small w have "copyBuffer_loop (hh\<lparr>hstate := s\<rparr>) src =
          copyBuffer_loop (hh\<lparr>hstate := snd (hWrite hh s buf)\<rparr>) src1"
        by (subst copyBuffer_loop.simps) (simp add: write_outcome_def)
      also have "\<dots> =
          Some (Inr (None, hh\<lparr>hstate := snd (hWrite hh (snd (hWrite hh s buf)) bs')\<rparr>, src'))"
        by (rule Suc.IH [OF rec inv])
      finally show ?thesis
        by (simp add: bs app)
    qed
  qed
qed

lemma run_WriteTo_writes:
  assumes cnt: "\<And>s p. fst (hWrite hh s p) = (int (length p), None)"
    and app: "\<And>s a b. snd (hWrite hh (snd (hWrite hh s a)) b) = snd (hWrite hh s (a @ b))"
  shows "writes_to_end k run = Some (bs, s') \<Longrightarrow> snd (hWrite hh s []) = s \<Longrightarrow>
     \<exists>n. run_WriteTo run (hh\<lparr>hstate := s\<rparr>) =
       Some (Inr ((n, None), s', hh\<lparr>hstate := snd (hWrite hh s bs)\<rparr>))"
proof (induction k arbitrary: run s bs)
  case 0
  then show ?case by simp
next
  case (Suc k)
  show ?case
  proof (cases run)
    case (WT_Write b cont)
    with Suc.prems(1) obtain bs'
      where rec: "writes_to_end k (cont (int (length b), None)) = Some (bs', s')"
        and bs: "bs = b @ bs'"
      by (auto split: option.splits)
    have inv: "snd (hWrite hh (snd (hWrite hh s b)) []) = snd (hWrite hh s b)"
      by (simp add: app)
    have w: "Hash_Write (hh\<lparr>hstate := s\<rparr>) b =
        ((int (length b), None), hh\<lparr>hstate := snd (hWrite hh s b)\<rparr>)"
      by (simp add: Hash_Write_alt cnt)
    from Suc.IH [OF rec inv] obtain n
      where "run_WriteTo (cont (int (length b), None)) (hh\<lparr>hstate := snd (hWrite hh s b)\<rparr>) =
        Some (Inr ((n, None), s', hh\<lparr>hstate := snd (hWrite hh (snd (hWrite hh s b)) bs')\<rparr>))"
      by blast
    moreover from WT_Write w have "run_WriteTo run (hh\<lparr>hstate := s\<rparr>) =
        run_WriteTo (cont (int (length b), None)) (hh\<lparr>hstate := snd (hWrite hh s b)\<rparr>)"
      by (subst run_WriteTo.simps) simp
    ultimately show ?thesis
      by (simp add: bs app)
  next
    case (WT_Return res r)
    obtain n err where res: "res = (n, err)"
      by (cases res)
    with WT_Return Suc.prems(1) have "err = None" "bs = []" "s' = r"
      by (auto split: if_splits)
    with WT_Return res Suc.prems(2) show ?thesis
      by (subst run_WriteTo.simps) simp
  next
    case (WT_Panic e)
    with Suc.prems(1) show ?thesis by simp
  qed
qed

lemma Copy_yields:
  assumes "streaming hh" and "hReadFrom hh = None" and "yields k src = Some (bs, src')"
  shows "Copy hh src = Some (Inr (None, hh\<lparr>hstate := snd (hWrite hh (hstate hh) bs)\<rparr>, src'))"
proof -
  from assms(1) have cnt: "\<And>s p. fst (hWrite hh s p) = (int (length p), None)"
    and app: "\<And>s a b. snd (hWrite hh (snd (hWrite hh s a)) b) = snd (hWrite hh s (a @ b))"
    and emp: "snd (hWrite hh (hstate hh) []) = hstate hh"
    by (simp_all add: streaming_def)
  have self: "hh\<lparr>hstate := hstate hh\<rparr> = hh"
    by simp
  show ?thesis
  proof (cases "rWriteTo src")
    case None
    with assms(3) have "reads_to_end k src = Some (bs, src')"
      by (simp add: yields_def)
    from copyBuffer_loop_reads [of hh k src bs src' "hstate hh", OF cnt app this emp]
    have "copyBuffer_loop hh src =
        Some (Inr (None, hh\<lparr>hstate := snd (hWrite hh (hstate hh) bs)\<rparr>, src'))"
      by (simp only: self)
    with None assms(2) show ?thesis
      by (simp add: Copy_def)
  next
    case (Some wt)
    with assms(3) obtain s' where wr: "writes_to_end k (wt (rstate src)) = Some (bs, s')"
      and src': "src' = src\<lparr>rstate := s'\<rparr>"
      by (auto simp: yields_def split: option.splits)
    from run_WriteTo_writes [of hh k "wt (rstate src)" bs s' "hstate hh", OF cnt app wr emp]
    obtain n where "run_WriteTo (wt (rstate src)) hh =
        Some (Inr ((n, None), s', hh\<lparr>hstate := snd (hWrite hh (hstate hh) bs)\<rparr>))"
      by (auto simp only: self)
    with Some src' show ?thesis
      by (simp add: Copy_def)
  qed
qed

lemma HashReader_yields:
  assumes "deref hp X = Inr t" and "streaming (NewFunc t ())" and "hReadFrom (NewFunc t ()) = None"
    and "yields k src = Some (bs, src')"
  shows "\<exists>str. HashData hp X bs = Inr str \<and>
     HashReader hp X src = Some (Inr ((str, None), src'))"
proof -
  define final where
    "final = (NewFunc t ())\<lparr>hstate := snd (hWrite (NewFunc t ()) (hstate (NewFunc t ())) bs)\<rparr>"
  have "HashData hp X bs = Inr (EncodeToString (Hash_Sum final []))"
    by (simp add: HashData_def assms(1) Hash_Write_alt final_def)
  moreover from Copy_yields [OF assms(2) assms(3) assms(4)]
  have "HashReader hp X src = Some (Inr ((EncodeToString (Hash_Sum final []), None), src'))"
    by (simp add: HashReader_def assms(1) final_def)
  ultimately show ?thesis by blast
qed

lemma HashFile_after_HashReader:
  "HashReader hp X src = Some (Inr ((str, None), src')) \<Longrightarrow>
     HashFile hp X src =
       (case RS_Seek src' 0 SeekStart of
          ((n, None), src'') \<Rightarrow> Some (Inr ((str, None), src''))
        | ((n, Some e), src'') \<Rightarrow> Some (Inr ((str, Some e), src'')))"
  by (auto simp: HashFile_def split: prod.splits option.splits)

subsection \<open>The sample sources\<close>

lemma yields_mem_file:
  "yields (Suc (Suc 0)) (mem_file bs (int p)) =
     Some (drop p bs, mem_file bs (int (max p (length bs))))"
proof (cases "p < length bs")
  case True
  then show ?thesis
    by (simp add: yields_def mem_file_def mem_WriteTo_def max_def)
next
  case False
  then show ?thesis
    by (simp add: yields_def mem_file_def mem_WriteTo_def max_def)
qed

lemma RS_Read_chunk_end:
  "length bs \<le> p \<Longrightarrow>
     RS_Read (chunk_file c sk bs (int p)) n = Inr (([], Some EOF), chunk_file c sk bs (int p))"
  by (simp add: RS_Read_def chunk_file_def chunk_Read_def mem_Read_def)

lemma RS_Read_chunk:
  "p < length bs \<Longrightarrow>
     RS_Read (chunk_file c sk bs (int p)) n =
       Inr ((take (min c n) (drop p bs), None),
            chunk_file c sk bs (int (p + min (min c n) (length bs - p))))"
  by (simp add: RS_Read_def chunk_file_def chunk_Read_def mem_Read_def)

lemma reads_chunk_file:
  assumes "0 < c"
  shows "\<exists>k. reads_to_end k (chunk_file c sk bs (int p)) =
     Some (drop p bs, chunk_file c sk bs (int (max p (length bs))))"
proof (induction "length bs - p" arbitrary: p rule: less_induct)
  case less
  show ?case
  proof (cases "p < length bs")
    case False
    then have "reads_to_end (Suc 0) (chunk_file c sk bs (int p)) =
        Some (drop p bs, chunk_file c sk bs (int (max p (length bs))))"
      by (simp add: RS_Read_chunk_end max_def)
    then show ?thesis by blast
  next
    case True
    define m where "m = min (min c 32768) (length bs - p)"
    have m: "0 < m" "p + m \<le> length bs"
      using True assms by (simp_all add: m_def)
    then have "length bs - (p + m) < length bs - p"
      using True by simp
    from less [OF this] obtain k
      where k: "reads_to_end k (chunk_file c sk bs (int (p + m))) =
        Some (drop (p + m) bs, chunk_file c sk bs (int (max (p + m) (length bs))))"
      by blast
    have buf: "take (min c 32768) (drop p bs) = take m (drop p bs)"
    proof (cases "min c 32768 \<le> length bs - p")
      case True
      then show ?thesis
        by (simp add: m_def min_absorb1)
    next
      case False
      then have "m = length bs - p"
        by (simp add: m_def)
      moreover from False have "length bs - p \<le> c" "length bs - p \<le> 32768"
        by simp_all
      ultimately show ?thesis
        by simp
    qed
    have cat: "take m (drop p bs) @ drop (p + m) bs = drop p bs"
      by (metis add.commute append_take_drop_id drop_drop)
    have m32: "m \<le> 32768"
      by (simp add: m_def)
    have mx: "max (p + m) (length bs) = max p (length bs)"
      using m True by simp
    have "reads_to_end (Suc k) (chunk_file c sk bs (int p)) =
        Some (drop p bs, chunk_file c sk bs (int (max p (length bs))))"
      using True k m32 by (simp add: RS_Read_chunk buf cat mx flip: m_def)
    then show ?thesis by blast
  qed
qed

lemma yields_chunk_file:
  assumes "0 < c"
  shows "\<exists>k. yields k (chunk_file c sk bs (int p)) =
     Some (drop p bs, chunk_file c sk bs (int (max p (length bs))))"
proof -
  have "yields k (chunk_file c sk bs (int p)) = reads_to_end k (chunk_file c sk bs (int p))" for k
    by (simp add: yields_def chunk_file_def)
  with reads_chunk_file [OF assms] show ?thesis
    by simp
qed

lemma RS_Seek_mem_start:
  "RS_Seek (mem_file bs pos) 0 SeekStart = ((0, None), mem_file bs 0)"
  by (simp add: RS_Seek_def mem_file_def mem_Seek_def SeekStart_def)

lemma RS_Seek_chunk_start:
  "RS_Seek (chunk_file c True bs pos) 0 SeekStart = ((0, None), chunk_file c True bs 0)"
  by (simp add: RS_Seek_def chunk_file_def mem_Seek_def SeekStart_def)

lemma RS_Seek_chunk_fails:
  "RS_Seek (chunk_file c False bs pos) off whence =
     ((0, Some (OtherError ''illegal seek'')), chunk_file c False bs pos)"
  by (simp add: RS_Seek_def chunk_file_def no_Seek_def)

subsection \<open>\<^verbatim>\<open>HashFile\<close>\<close>

lemma HashFile_yields:
  assumes "deref hp X = Inr t" and "streaming (NewFunc t ())" and "hReadFrom (NewFunc t ()) = None"
    and "yields k src = Some (bs, src')"
  shows "\<exists>str. HashData hp X bs = Inr str \<and>
     HashReader hp X src = Some (Inr ((str, None), src')) \<and>
     HashFile hp X src =
       (case RS_Seek src' 0 SeekStart of
          ((n, None), src'') \<Rightarrow> Some (Inr ((str, None), src''))
        | ((n, Some e), src'') \<Rightarrow> Some (Inr ((str, Some e), src'')))"
proof -
  from HashReader_yields [OF assms] obtain str
    where d: "HashData hp X bs = Inr str"
      and r: "HashReader hp X src = Some (Inr ((str, None), src'))"
    by blast
  from d r HashFile_after_HashReader [OF r] show ?thesis
    by blast
qed

lemma HashFile_samples:
  assumes "deref hp X = Inr t" and "streaming (NewFunc t ())" and "hReadFrom (NewFunc t ()) = None"
  shows "\<exists>str. HashData hp X (drop p B) = Inr str \<and>
     HashFile hp X (mem_file B (int p)) = Some (Inr ((str, None), mem_file B 0)) \<and>
     (0 < c \<longrightarrow>
        HashFile hp X (chunk_file c True B (int p)) =
          Some (Inr ((str, None), chunk_file c True B 0)) \<and>
        HashFile hp X (chunk_file c False B (int p)) =
          Some (Inr ((str, Some (OtherError ''illegal seek'')),
                     chunk_file c False B (int (max p (length B))))))"
proof -
  from HashFile_yields [OF assms yields_mem_file [of B p]] obtain str
    where d: "HashData hp X (drop p B) = Inr str"
      and m: "HashFile hp X (mem_file B (int p)) = Some (Inr ((str, None), mem_file B 0))"
    by (auto simp: RS_Seek_mem_start)
  have "HashFile hp X (chunk_file c sk B (int p)) =
      (case RS_Seek (chunk_file c sk B (int (max p (length B)))) 0 SeekStart of
         ((n, None), src'') \<Rightarrow> Some (Inr ((str, None), src''))
       | ((n, Some e), src'') \<Rightarrow> Some (Inr ((str, Some e), src'')))" if "0 < c" for sk
  proof -
    from yields_chunk_file [OF that, of sk B p] obtain k
      where "yields k (chunk_file c sk B (int p)) =
        Some (drop p B, chunk_file c sk B (int (max p (length B))))"
      by blast
    from HashFile_yields [OF assms this] d show ?thesis
      by auto
  qed
  from this [of True] this [of False] d m show ?thesis
    by (simp add: RS_Seek_chunk_start RS_Seek_chunk_fails)
qed

text \<open>
  The three registered descriptors can be read, and their digest computers hash a stream
  and have no \<^verbatim>\<open>ReadFrom\<close>.
\<close>

lemma registered_digests:
  assumes "X = MD5 \<or> X = SHA1 \<or> X = SHA256"
  shows "\<exists>t. deref (heap init_pkg) X = Inr t \<and> streaming (NewFunc t ()) \<and>
     hReadFrom (NewFunc t ()) = None"
proof -
  have "hReadFrom (md5_New ()) = None" "hReadFrom (sha1_New ()) = None"
    "hReadFrom (sha256_New ()) = None"
    by (simp_all add: md5_New_def sha1_New_def sha256_New_def)
  with assms show ?thesis
    by (auto simp: heap_init MD5_addr SHA1_addr SHA256_addr streaming_md5 streaming_sha1
        streaming_sha256)
qed

text \<open>
  C6, as amended. \<^verbatim>\<open>HashFile\<close> hashes the bytes the source hands over from where it stands
  to its end, which is the whole contents when the source stands at its start, and then
  seeks to the start. For every source, with or without \<^verbatim>\<open>WriteTo\<close>, that yields the bytes
  \<open>bs\<close> and is then in the state \<open>src'\<close>, and for every descriptor whose digest computer
  hashes a stream and has no \<^verbatim>\<open>ReadFrom\<close>, as the three registered ones: \<^verbatim>\<open>HashReader\<close>
  returns the digest of \<open>bs\<close>, the string \<^verbatim>\<open>HashData\<close> returns for \<open>bs\<close>, and leaves the
  source in \<open>src'\<close>; \<^verbatim>\<open>HashFile\<close> then calls \<^verbatim>\<open>Seek(0, io.SeekStart)\<close> on \<open>src'\<close> and returns
  that digest, with the error of the seek when it fails, and the source as the seek left
  it. For the sample sources with the bytes \<open>B\<close> at position \<open>p\<close> the digest is the one of
  \<open>drop p B\<close> and the source is at position 0 afterwards; where every seek fails,
  the digest comes with the seek's error and the source stays at its end.
\<close>

theorem HashFile_digest_then_rewind:
  assumes "deref hp X = Inr t" and "streaming (NewFunc t ())" and "hReadFrom (NewFunc t ()) = None"
  shows "(\<forall>k (src :: 'r ReadSeeker) bs src'.
            yields k src = Some (bs, src') \<longrightarrow>
              (\<exists>str. HashData hp X bs = Inr str \<and>
                 HashReader hp X src = Some (Inr ((str, None), src')) \<and>
                 HashFile hp X src =
                   (case RS_Seek src' 0 SeekStart of
                      ((n, None), src'') \<Rightarrow> Some (Inr ((str, None), src''))
                    | ((n, Some e), src'') \<Rightarrow> Some (Inr ((str, Some e), src''))))) \<and>
         (\<exists>str. HashData hp X (drop p B) = Inr str \<and>
            HashFile hp X (mem_file B (int p)) = Some (Inr ((str, None), mem_file B 0)) \<and>
            (0 < c \<longrightarrow>
               HashFile hp X (chunk_file c True B (int p)) =
                 Some (Inr ((str, None), chunk_file c True B 0)) \<and>
               HashFile hp X (chunk_file c False B (int p)) =
                 Some (Inr ((str, Some (OtherError ''illegal seek'')),
                            chunk_file c False B (int (max p (length B)))))))"
proof (intro conjI allI impI)
  fix k and src src' :: "'r ReadSeeker" and bs
  assume "yields k src = Some (bs, src')"
  from HashFile_yields [OF assms this]
  show "\<exists>str. HashData hp X bs = Inr str \<and>
      HashReader hp X src = Some (Inr ((str, None), src')) \<and>
      HashFile hp X src =
        (case RS_Seek src' 0 SeekStart of
           ((n, None), src'') \<Rightarrow> Some (Inr ((str, None), src''))
         | ((n, Some e), src'') \<Rightarrow> Some (Inr ((str, Some e), src'')))" .
next
  show "\<exists>str. HashData hp X (drop p B) = Inr str \<and>
      HashFile hp X (mem_file B (int p)) = Some (Inr ((str, None), mem_file B 0)) \<and>
      (0 < c \<longrightarrow>
         HashFile hp X (chunk_file c True B (int p)) =
           Some (Inr ((str, None), chunk_file c True B 0)) \<and>
         HashFile hp X (chunk_file c False B (int p)) =
           Some (Inr ((str, Some (OtherError ''illegal seek'')),
                      chunk_file c False B (int (max p (length B))))))"
    by (rule HashFile_samples [OF assms])
qed

theorem HashFile_digest_then_rewind_witness:
  "deref (heap init_pkg) MD5 = Inr \<lparr>Width = 32, Name = ''md5'', Alias = ''MD5'', NewFunc = md5_New\<rparr> \<and>
   streaming (md5_New ()) \<and>
   hReadFrom (md5_New ()) = None \<and>
   yields 4 (chunk_file 2 False (bytes_of ''hello'') 0) =
     Some (bytes_of ''hello'', chunk_file 2 False (bytes_of ''hello'') 5) \<and>
   HashData (heap init_pkg) MD5 (bytes_of ''hello'') = Inr ''5d41402abc4b2a76b9719d911017c592'' \<and>
   HashReader (heap init_pkg) MD5 (chunk_file 2 False (bytes_of ''hello'') 0) =
     Some (Inr ((''5d41402abc4b2a76b9719d911017c592'', None),
                chunk_file 2 False (bytes_of ''hello'') 5)) \<and>
   RS_Seek (chunk_file 2 False (bytes_of ''hello'') 5) 0 SeekStart =
     ((0, Some (OtherError ''illegal seek'')), chunk_file 2 False (bytes_of ''hello'') 5) \<and>
   HashFile (heap init_pkg) MD5 (chunk_file 2 False (bytes_of ''hello'') 0) =
     Some (Inr ((''5d41402abc4b2a76b9719d911017c592'', Some (OtherError ''illegal seek'')),
                chunk_file 2 False (bytes_of ''hello'') 5)) \<and>
   yields 2 (mem_file (bytes_of ''hello'') 2) =
     Some (bytes_of ''llo'', mem_file (bytes_of ''hello'') 5) \<and>
   HashData (heap init_pkg) MD5 (bytes_of ''llo'') = Inr ''7062da7393ecc31c3c0564020f85efd1'' \<and>
   HashReader (heap init_pkg) MD5 (mem_file (bytes_of ''hello'') 2) =
     Some (Inr ((''7062da7393ecc31c3c0564020f85efd1'', None), mem_file (bytes_of ''hello'') 5)) \<and>
   HashFile (heap init_pkg) MD5 (mem_file (bytes_of ''hello'') 2) =
     Some (Inr ((''7062da7393ecc31c3c0564020f85efd1'', None), mem_file (bytes_of ''hello'') 0)) \<and>
   HashFile (heap init_pkg) MD5 (mem_file (bytes_of ''hello'') 0) =
     Some (Inr ((''5d41402abc4b2a76b9719d911017c592'', None), mem_file (bytes_of ''hello'') 0)) \<and>
   (0 :: nat) < 2 \<and>
   HashFile (heap init_pkg) MD5 (chunk_file 2 True (bytes_of ''hello'') 0) =
     Some (Inr ((''5d41402abc4b2a76b9719d911017c592'', None),
                chunk_file 2 True (bytes_of ''hello'') 0)) \<and>
   RS_Read (mem_file (bytes_of ''hello'') 0) 5 =
     Inr ((bytes_of ''hello'', None), mem_file (bytes_of ''hello'') 5)"
proof -
  have d: "deref (heap init_pkg) MD5 =
      Inr \<lparr>Width = 32, Name = ''md5'', Alias = ''MD5'', NewFunc = md5_New\<rparr>"
    by (simp add: heap_init MD5_addr)
  have s: "streaming (NewFunc \<lparr>Width = 32, Name = ''md5'', Alias = ''MD5'', NewFunc = md5_New\<rparr> ())"
    by (simp add: streaming_md5)
  have rf: "hReadFrom (NewFunc \<lparr>Width = 32, Name = ''md5'', Alias = ''MD5'', NewFunc = md5_New\<rparr> ()) = None"
    by (simp add: md5_New_def)
  have llo: "drop 2 (bytes_of ''hello'') = bytes_of ''llo''"
    by (simp add: bytes_of_def)
  have len: "max 0 (length (bytes_of ''hello'')) = 5"
    by (simp add: bytes_of_def)
  have four: "(4 :: nat) = Suc (Suc (Suc (Suc 0)))"
    by simp
  note gen = HashFile_digest_then_rewind [OF d s rf, THEN conjunct1, rule_format]
  note smp = HashFile_digest_then_rewind [OF d s rf, THEN conjunct2]
  have y1: "yields 4 (chunk_file 2 False (bytes_of ''hello'') 0) =
      Some (bytes_of ''hello'', chunk_file 2 False (bytes_of ''hello'') 5)"
    unfolding four
    by (simp add: yields_def chunk_file_def RS_Read_def chunk_Read_def mem_Read_def bytes_of_def)
  have k1: "RS_Seek (chunk_file 2 False (bytes_of ''hello'') 5) 0 SeekStart =
      ((0, Some (OtherError ''illegal seek'')), chunk_file 2 False (bytes_of ''hello'') 5)"
    by (rule RS_Seek_chunk_fails)
  from gen [OF y1] obtain str
    where a1: "HashData (heap init_pkg) MD5 (bytes_of ''hello'') = Inr str"
      and r1: "HashReader (heap init_pkg) MD5 (chunk_file 2 False (bytes_of ''hello'') 0) =
        Some (Inr ((str, None), chunk_file 2 False (bytes_of ''hello'') 5))"
      and f1: "HashFile (heap init_pkg) MD5 (chunk_file 2 False (bytes_of ''hello'') 0) =
        (case RS_Seek (chunk_file 2 False (bytes_of ''hello'') 5) 0 SeekStart of
           ((n, None), src'') \<Rightarrow> Some (Inr ((str, None), src''))
         | ((n, Some e), src'') \<Rightarrow> Some (Inr ((str, Some e), src'')))"
    by blast
  from a1 have str: "str = ''5d41402abc4b2a76b9719d911017c592''"
    by (simp add: HashData_MD5_hello)
  have y2: "yields 2 (mem_file (bytes_of ''hello'') 2) =
      Some (bytes_of ''llo'', mem_file (bytes_of ''hello'') 5)"
    unfolding numeral_2_eq_2
    by (simp add: yields_def mem_file_def mem_WriteTo_def bytes_of_def)
  from gen [OF y2] obtain str4
    where a4: "HashData (heap init_pkg) MD5 (bytes_of ''llo'') = Inr str4"
      and r4: "HashReader (heap init_pkg) MD5 (mem_file (bytes_of ''hello'') 2) =
        Some (Inr ((str4, None), mem_file (bytes_of ''hello'') 5))"
    by blast
  from a4 have str4: "str4 = ''7062da7393ecc31c3c0564020f85efd1''"
    by (simp add: HashData_MD5_llo)
  from smp [of 2 "bytes_of ''hello''" 2] obtain str2
    where a2: "HashData (heap init_pkg) MD5 (drop 2 (bytes_of ''hello'')) = Inr str2"
      and f2: "HashFile (heap init_pkg) MD5 (mem_file (bytes_of ''hello'') (int 2)) =
        Some (Inr ((str2, None), mem_file (bytes_of ''hello'') 0))"
    by blast
  from a2 have str2: "str2 = ''7062da7393ecc31c3c0564020f85efd1''"
    by (simp add: llo HashData_MD5_llo)
  from smp [of 0 "bytes_of ''hello''" 2] obtain str3
    where a3: "HashData (heap init_pkg) MD5 (drop 0 (bytes_of ''hello'')) = Inr str3"
      and f3: "HashFile (heap init_pkg) MD5 (mem_file (bytes_of ''hello'') (int 0)) =
        Some (Inr ((str3, None), mem_file (bytes_of ''hello'') 0))"
      and f4: "HashFile (heap init_pkg) MD5 (chunk_file 2 True (bytes_of ''hello'') (int 0)) =
        Some (Inr ((str3, None), chunk_file 2 True (bytes_of ''hello'') 0))"
    by auto
  from a3 have str3: "str3 = ''5d41402abc4b2a76b9719d911017c592''"
    by (simp add: HashData_MD5_hello)
  have rd: "RS_Read (mem_file (bytes_of ''hello'') 0) 5 =
      Inr ((bytes_of ''hello'', None), mem_file (bytes_of ''hello'') 5)"
    by (simp add: RS_Read_def mem_file_def mem_Read_def bytes_of_def)
  from f1 have f1': "HashFile (heap init_pkg) MD5 (chunk_file 2 False (bytes_of ''hello'') 0) =
      Some (Inr ((str, Some (OtherError ''illegal seek'')), chunk_file 2 False (bytes_of ''hello'') 5))"
    by (simp add: k1)
  from d streaming_md5 rf y1 r1 k1 f1' f2 f3 f4 rd y2 r4 show ?thesis
    unfolding str str2 str3 str4 by (simp add: HashData_MD5_hello HashData_MD5_llo)
qed

theorem HashFile_not_whole_contents:
  "HashFile (heap init_pkg) MD5 (mem_file (bytes_of ''hello'') 2) =
     Some (Inr ((''7062da7393ecc31c3c0564020f85efd1'', None), mem_file (bytes_of ''hello'') 0)) \<and>
   HashData (heap init_pkg) MD5 (bytes_of ''hello'') = Inr ''5d41402abc4b2a76b9719d911017c592'' \<and>
   HashFile (heap init_pkg) MD5 (mem_file (bytes_of ''hello'') 2) \<noteq>
     Some (Inr ((''5d41402abc4b2a76b9719d911017c592'', None), mem_file (bytes_of ''hello'') 0)) \<and>
   HashFile (heap init_pkg) MD5 (chunk_file 2 True (bytes_of ''hello'') 2) =
     Some (Inr ((''7062da7393ecc31c3c0564020f85efd1'', None),
                chunk_file 2 True (bytes_of ''hello'') 0))"
proof -
  have d: "deref (heap init_pkg) MD5 =
      Inr \<lparr>Width = 32, Name = ''md5'', Alias = ''MD5'', NewFunc = md5_New\<rparr>"
    by (simp add: heap_init MD5_addr)
  have s: "streaming (NewFunc \<lparr>Width = 32, Name = ''md5'', Alias = ''MD5'', NewFunc = md5_New\<rparr> ())"
    by (simp add: streaming_md5)
  have rf: "hReadFrom (NewFunc \<lparr>Width = 32, Name = ''md5'', Alias = ''MD5'', NewFunc = md5_New\<rparr> ()) = None"
    by (simp add: md5_New_def)
  have llo: "drop 2 (bytes_of ''hello'') = bytes_of ''llo''"
    by (simp add: bytes_of_def)
  from HashFile_samples [OF d s rf, of 2 "bytes_of ''hello''" 2]
  obtain str where a: "HashData (heap init_pkg) MD5 (drop 2 (bytes_of ''hello'')) = Inr str"
    and b: "HashFile (heap init_pkg) MD5 (mem_file (bytes_of ''hello'') (int 2)) =
      Some (Inr ((str, None), mem_file (bytes_of ''hello'') 0))"
    and c: "HashFile (heap init_pkg) MD5 (chunk_file 2 True (bytes_of ''hello'') (int 2)) =
      Some (Inr ((str, None), chunk_file 2 True (bytes_of ''hello'') 0))"
    by auto
  from a have "str = ''7062da7393ecc31c3c0564020f85efd1''"
    by (simp add: llo HashData_MD5_llo)
  with b c show ?thesis
    by (simp add: HashData_MD5_hello)
qed

text \<open>
  A digest computer that fails in the middle of a \<^verbatim>\<open>Write\<close>: the one that takes three bytes,
  given the five bytes of \<open>hello\<close>. \<^verbatim>\<open>HashReader\<close> returns the empty string and the wrapped
  error. The source with \<^verbatim>\<open>WriteTo\<close> has moved by the three bytes that were taken; the
  source that was read by the loop has handed out all five.
\<close>

lemma HashReader_failing_Write:
  "HashReader (heap capped_pkg) (Addr 0) (mem_file (bytes_of ''hello'') 0) =
     Some (Inr (([], Some (NewErr (OtherError ''full'') ''HashReader error'')),
                mem_file (bytes_of ''hello'') 3)) \<and>
   HashReader (heap capped_pkg) (Addr 0) (chunk_file 8 True (bytes_of ''hello'') 0) =
     Some (Inr (([], Some (NewErr (OtherError ''full'') ''HashReader error'')),
                chunk_file 8 True (bytes_of ''hello'') 5))"
proof -
  have w: "Hash_Write (capped_New 3 ()) (bytes_of ''hello'') =
      ((3, Some (OtherError ''full'')), (capped_New 3 ())\<lparr>hstate := bytes_of ''hel''\<rparr>)"
    by (simp add: Hash_Write_def capped_New_def capped_Write_def bytes_of_def)
  have "run_WriteTo (mem_WriteTo \<lparr>f_data = bytes_of ''hello'', f_pos = 0\<rparr>) (capped_New 3 ()) =
      Some (Inr ((3, Some (OtherError ''full'')), \<lparr>f_data = bytes_of ''hello'', f_pos = 3\<rparr>,
                 (capped_New 3 ())\<lparr>hstate := bytes_of ''hel''\<rparr>))"
    by (subst run_WriteTo.simps, simp add: mem_WriteTo_def w, subst run_WriteTo.simps)
      (simp add: bytes_of_def)
  then have one: "Copy (capped_New 3 ()) (mem_file (bytes_of ''hello'') 0) =
      Some (Inr (Some (OtherError ''full''), (capped_New 3 ())\<lparr>hstate := bytes_of ''hel''\<rparr>,
                 mem_file (bytes_of ''hello'') 3))"
    by (simp add: Copy_def mem_file_def)
  have rd: "RS_Read (chunk_file 8 True (bytes_of ''hello'') 0) 32768 =
      Inr ((bytes_of ''hello'', None), chunk_file 8 True (bytes_of ''hello'') 5)"
    by (simp add: RS_Read_def chunk_file_def chunk_Read_def mem_Read_def bytes_of_def)
  have "copyBuffer_loop (capped_New 3 ()) (chunk_file 8 True (bytes_of ''hello'') 0) =
      Some (Inr (Some (OtherError ''full''), (capped_New 3 ())\<lparr>hstate := bytes_of ''hel''\<rparr>,
                 chunk_file 8 True (bytes_of ''hello'') 5))"
    by (subst copyBuffer_loop.simps) (simp add: rd w write_outcome_def, simp add: bytes_of_def)
  then have two: "Copy (capped_New 3 ()) (chunk_file 8 True (bytes_of ''hello'') 0) =
      Some (Inr (Some (OtherError ''full''), (capped_New 3 ())\<lparr>hstate := bytes_of ''hel''\<rparr>,
                 chunk_file 8 True (bytes_of ''hello'') 5))"
    by (simp add: Copy_def chunk_file_def capped_New_def)
  from one two show ?thesis
    by (simp add: HashReader_def heap_capped)
qed

lemma heap_four:
  "heap four_pkg = [\<lparr>Width = 8, Name = ''four'', Alias = ''FOUR'', NewFunc = four_New\<rparr>]"
  by (simp add: four_pkg_def RegisterHash_def empty_pkg_def Let_def)

lemma hex_hello: "EncodeToString (bytes_of ''hello'') = ''68656c6c6f''"
  by code_simp

lemma hex_hell: "EncodeToString (bytes_of ''hell'') = ''68656c6c''"
  by code_simp

text \<open>
  The three ways of \<^verbatim>\<open>io.Copy\<close>, seen from \<^verbatim>\<open>HashReader\<close>. A digest computer with \<^verbatim>\<open>ReadFrom\<close>
  does the reading itself: the one that asks for four bytes hashes \<open>hell\<close> of a source
  that would hand \<open>hello\<close> to the loop, and leaves the source after the fourth byte. A
  source with \<^verbatim>\<open>WriteTo\<close> goes before it and writes all five bytes.
\<close>

lemma HashReader_ReadFrom:
  "streaming (four_New ()) \<and>
   HashData (heap four_pkg) (Addr 0) (bytes_of ''hello'') = Inr ''68656c6c6f'' \<and>
   yields 2 (chunk_file 8 True (bytes_of ''hello'') 0) =
     Some (bytes_of ''hello'', chunk_file 8 True (bytes_of ''hello'') 5) \<and>
   HashReader (heap four_pkg) (Addr 0) (chunk_file 8 True (bytes_of ''hello'') 0) =
     Some (Inr ((''68656c6c'', None), chunk_file 8 True (bytes_of ''hello'') 4)) \<and>
   HashReader (heap four_pkg) (Addr 0) (mem_file (bytes_of ''hello'') 0) =
     Some (Inr ((''68656c6c6f'', None), mem_file (bytes_of ''hello'') 5))"
proof -
  have s: "streaming (four_New ())"
    by (simp add: streaming_def four_New_def)
  have d: "HashData (heap four_pkg) (Addr 0) (bytes_of ''hello'') = Inr ''68656c6c6f''"
    by (simp add: HashData_def heap_four Hash_Write_def Hash_Sum_def four_New_def hex_hello)
  have y: "yields 2 (chunk_file 8 True (bytes_of ''hello'') 0) =
      Some (bytes_of ''hello'', chunk_file 8 True (bytes_of ''hello'') 5)"
    unfolding numeral_2_eq_2
    by (simp add: yields_def chunk_file_def RS_Read_def chunk_Read_def mem_Read_def bytes_of_def)
  have rd: "RS_Read (chunk_file 8 True (bytes_of ''hello'') 0) 4 =
      Inr ((bytes_of ''hell'', None), chunk_file 8 True (bytes_of ''hello'') 4)"
    by (simp add: RS_Read_def chunk_file_def chunk_Read_def mem_Read_def bytes_of_def)
  have "run_ReadFrom (four_ReadFrom []) (chunk_file 8 True (bytes_of ''hello'') 0) =
      Some (Inr ((4, None), bytes_of ''hell'', chunk_file 8 True (bytes_of ''hello'') 4))"
    by (subst run_ReadFrom.simps, simp add: four_ReadFrom_def rd, subst run_ReadFrom.simps)
      (simp add: bytes_of_def)
  then have c1: "Copy (four_New ()) (chunk_file 8 True (bytes_of ''hello'') 0) =
      Some (Inr (None, (four_New ())\<lparr>hstate := bytes_of ''hell''\<rparr>,
                 chunk_file 8 True (bytes_of ''hello'') 4))"
    by (simp add: Copy_def chunk_file_def four_New_def)
  have w: "Hash_Write (four_New ()) (bytes_of ''hello'') =
      ((5, None), (four_New ())\<lparr>hstate := bytes_of ''hello''\<rparr>)"
    by (simp add: Hash_Write_def four_New_def bytes_of_def)
  have "run_WriteTo (mem_WriteTo \<lparr>f_data = bytes_of ''hello'', f_pos = 0\<rparr>) (four_New ()) =
      Some (Inr ((5, None), \<lparr>f_data = bytes_of ''hello'', f_pos = 5\<rparr>,
                 (four_New ())\<lparr>hstate := bytes_of ''hello''\<rparr>))"
    by (subst run_WriteTo.simps, simp add: mem_WriteTo_def w, subst run_WriteTo.simps)
      (simp add: bytes_of_def)
  then have c2: "Copy (four_New ()) (mem_file (bytes_of ''hello'') 0) =
      Some (Inr (None, (four_New ())\<lparr>hstate := bytes_of ''hello''\<rparr>,
                 mem_file (bytes_of ''hello'') 5))"
    by (simp add: Copy_def mem_file_def)
  from s d y c1 c2 show ?thesis
    by (simp add: HashReader_def heap_four Hash_Sum_def four_New_def hex_hello hex_hell)
qed

end
